theory Spec2Isabelle
  imports Main "HOL-Library.Word"
begin

unbundle bit_operations_syntax

section \<open>Hardware entropy source (rdrand-x86_64 assembly)\<close>

text \<open>
  The two routines are straight x86-64 assembly. The model keeps the registers they
  use as 64-bit words and the two flags they read (CF, ZF) as booleans. One execution
  of the \<open>rdrand\<close> instruction is an outcome \<open>(value, CF)\<close> supplied by the hardware:
  the value lands in the destination register and CF is the instruction's own
  success flag. Memory is a map from addresses to bytes.
\<close>

type_synonym u64 = "64 word"
type_synonym u8 = "8 word"
type_synonym memory = "u64 \<Rightarrow> u8"
type_synonym rdrand_outcome = "u64 \<times> bool"

text \<open>
  \<open>movq %reg,0(%rdi)\<close>: the eight bytes of the register go to the addresses
  \<open>rdi .. rdi+7\<close> (modulo \<open>2^64\<close>), least significant byte first.
\<close>

definition movq_store :: "memory \<Rightarrow> u64 \<Rightarrow> u64 \<Rightarrow> memory" where
  "movq_store mem rdi v =
     (\<lambda>a. if a - rdi < 8 then ucast (drop_bit (8 * unat (a - rdi)) v) else mem a)"

text \<open>
  \<open>_CRYPTO_rdrand\<close> (part_000, lines 16 to 31). The argument \<open>hw\<close> is the outcome of
  the one \<open>rdrand %rdx\<close> the routine executes; the result is \<open>%rax\<close> at \<open>ret\<close> and
  the memory. \<open>testq\<close> clears CF and sets ZF from the value; \<open>cmpq $-1,%rdx\<close> sets
  ZF when the value is all ones and CF to the unsigned borrow of \<open>rdx - (2^64 - 1)\<close>;
  \<open>adcq %rax,%rax\<close> adds CF to \<open>rax + rax\<close>.
\<close>

definition CRYPTO_rdrand :: "rdrand_outcome \<Rightarrow> memory \<Rightarrow> u64 \<Rightarrow> u64 \<times> memory" where
  "CRYPTO_rdrand hw mem rdi =
     (let rax = (0 :: u64);
          rdx = fst hw;
          cf = snd hw;
          zf = (rdx AND rdx = 0);
          cf = False
      in if zf then (0, mem)
         else
           let zf = (rdx = - 1);
               cf = (rdx < - 1)
           in if zf then (0, mem)
              else
                let rax = rax + rax + (if cf then 1 else 0)
                in (rax, movq_store mem rdi rdx))"

text \<open>
  \<open>_CRYPTO_rdrand_multiple8_buf\<close> (part_000, lines 43 to 65). The hardware is a
  sequence of outcomes, \<open>hw k\<close> being the outcome of the \<open>k\<close>-th \<open>rdrand\<close> executed;
  the state carries the number of draws made so far. The loop at \<open>L$loop\<close> ends only
  when \<open>subq %rdx,%rsi\<close> reaches zero or a draw is rejected, so it need not end at
  all (a length that is not a multiple of 8 never reaches zero): the model takes
  fuel, one unit per loop iteration, and \<open>None\<close> means the fuel ran out.
  The result is \<open>%rax\<close> at \<open>ret\<close>, the memory and the number of draws made.
\<close>

fun rdrand_loop ::
  "nat \<Rightarrow> (nat \<Rightarrow> rdrand_outcome) \<Rightarrow> nat \<Rightarrow> memory \<Rightarrow> u64 \<Rightarrow> u64 \<Rightarrow> (u64 \<times> memory \<times> nat) option"
where
  "rdrand_loop 0 hw k mem rdi rsi = None"
| "rdrand_loop (Suc fuel) hw k mem rdi rsi =
     (let rcx = fst (hw k);
          cf = snd (hw k)
      in if \<not> cf then Some (0, mem, Suc k)
         else if rcx AND rcx = 0 then Some (0, mem, Suc k)
         else if rcx = - 1 then Some (0, mem, Suc k)
         else
           let mem' = movq_store mem rdi rcx;
               rdi' = rdi + 8;
               rsi' = rsi - 8
           in if rsi' \<noteq> 0 then rdrand_loop fuel hw (Suc k) mem' rdi' rsi'
              else Some (1, mem', Suc k))"

definition CRYPTO_rdrand_multiple8_buf ::
  "nat \<Rightarrow> (nat \<Rightarrow> rdrand_outcome) \<Rightarrow> nat \<Rightarrow> memory \<Rightarrow> u64 \<Rightarrow> u64 \<Rightarrow> (u64 \<times> memory \<times> nat) option"
where
  "CRYPTO_rdrand_multiple8_buf fuel hw k mem rdi rsi =
     (if rsi AND rsi = 0 then Some (1, mem, k)
      else rdrand_loop fuel hw k mem rdi rsi)"

text \<open>
  Notions used to state the properties of the bulk filler: a draw is accepted when
  the instruction reports success and the value is neither all zeros nor all ones;
  \<open>chunks_written hw k mem rdi n\<close> is the memory after the values of the draws
  \<open>k, \<dots>, k + n - 1\<close> have been stored at \<open>rdi, rdi + 8, \<dots>\<close> in this order.
\<close>

definition accepted :: "rdrand_outcome \<Rightarrow> bool" where
  "accepted d \<longleftrightarrow> snd d \<and> fst d \<noteq> 0 \<and> fst d \<noteq> - 1"

fun chunks_written :: "(nat \<Rightarrow> rdrand_outcome) \<Rightarrow> nat \<Rightarrow> memory \<Rightarrow> u64 \<Rightarrow> nat \<Rightarrow> memory" where
  "chunks_written hw k mem rdi 0 = mem"
| "chunks_written hw k mem rdi (Suc n) =
     chunks_written hw (Suc k) (movq_store mem rdi (fst (hw k))) (rdi + 8) n"

text \<open>Concrete inputs: two memories and three hardware behaviours.\<close>

definition zero_memory :: memory where
  "zero_memory = (\<lambda>a. 0)"

definition aa_memory :: memory where
  "aa_memory = (\<lambda>a. 0xAA)"

definition hw_good :: "nat \<Rightarrow> rdrand_outcome" where
  "hw_good k = (0x0807060504030201 + of_nat k, True)"

definition hw_transient :: "nat \<Rightarrow> rdrand_outcome" where
  "hw_transient k = (if k = 0 then (5, False) else (7, True))"

definition hw_stuck :: "nat \<Rightarrow> rdrand_outcome" where
  "hw_stuck k = (if k = 0 then (7, True) else (0, True))"

section \<open>HKDF (crypto/fipsmodule/hkdf/hkdf.c)\<close>

text \<open>
  A C buffer \<open>(pointer, length)\<close> that is only read is a byte list. A buffer that is
  written is passed in with its content before the call and returned with its
  content after it. \<open>size_t\<close> is the 64-bit word of the platform the assembly above
  is written for.
\<close>

type_synonym bytes = "u8 list"
type_synonym size_t = "64 word"

text \<open>
  The HMAC interface of \<open>openssl/hmac.h\<close> and \<open>EVP_MD_size\<close> are called by hkdf.c
  and defined elsewhere, so they are parameters: a record of functions over an
  abstract context type \<open>'ctx\<close> and digest type \<open>'md\<close>. A call that returns an
  \<open>int\<close> tested with \<open>!\<close> yields a boolean (true for a non-zero return) together with
  the context it leaves behind; \<open>HMAC_Final\<close> also yields the bytes it wrote to its
  output; the one-shot \<open>HMAC\<close> yields \<open>None\<close> for a \<open>NULL\<close> return (its output is
  then taken as untouched) and otherwise the bytes it wrote, whose number it
  reports through its last argument. In \<open>HMAC_Init_ex\<close> a \<open>NULL\<close> key or digest is
  \<open>None\<close>.
\<close>

record ('ctx, 'md) hmac_ops =
  EVP_MD_size :: "'md \<Rightarrow> size_t"
  HMAC :: "'md \<Rightarrow> bytes \<Rightarrow> bytes \<Rightarrow> bytes option"
  HMAC_CTX_init :: "'ctx"
  HMAC_Init_ex :: "'ctx \<Rightarrow> bytes option \<Rightarrow> 'md option \<Rightarrow> bool \<times> 'ctx"
  HMAC_Update :: "'ctx \<Rightarrow> bytes \<Rightarrow> bool \<times> 'ctx"
  HMAC_Final :: "'ctx \<Rightarrow> bool \<times> 'ctx \<times> bytes"
  HMAC_CTX_cleanup :: "'ctx \<Rightarrow> 'ctx"

text \<open>
  Calls into the service indicator and the error queue have no effect that hkdf.c
  reads back; each call is recorded, in order, as an event.
\<close>

datatype err_reason = ERR_R_HMAC_LIB | HKDF_R_OUTPUT_TOO_LARGE

datatype 'md event =
    FIPS_service_indicator_lock_state
  | FIPS_service_indicator_unlock_state
  | HKDF_verify_service_indicator 'md bytes nat
  | HKDFExpand_verify_service_indicator 'md
  | OPENSSL_PUT_ERROR err_reason

text \<open>
  What a call leaves behind: the returned \<open>int\<close>, the caller's output buffer, the
  events, and per function the variables it wrote (\<open>*out_len\<close> for
  \<open>HKDF_extract\<close>) and the content of its local arrays when it returns (\<open>previous\<close>
  and \<open>hmac\<close> for \<open>HKDF_expand\<close>, \<open>prk\<close> and \<open>prk_len\<close> for \<open>HKDF\<close>). A local that is
  declared without initialiser starts with the content the caller of the model
  passes in (\<open>previous0\<close>, \<open>prk0\<close>, \<open>prk_len0\<close>); \<open>r_hmac\<close> is \<open>None\<close> when
  \<open>HMAC_CTX_init\<close> was never reached.
\<close>

record 'md call_result =
  r_ret :: int
  r_out_key :: bytes
  r_events :: "'md event list"

record 'md extract_result = "'md call_result" +
  r_out_len :: size_t

record ('ctx, 'md) expand_result = "'md call_result" +
  r_previous :: bytes
  r_hmac :: "'ctx option"

record 'md hkdf_result = "'md call_result" +
  r_prk :: bytes
  r_prk_len :: size_t

text \<open>
  Writing \<open>src\<close> into \<open>dst\<close> from offset \<open>off\<close> on; \<open>OPENSSL_memcpy(dst + off, src, n)\<close>
  writes the first \<open>n\<close> bytes of \<open>src\<close>. The caller's contract (the destination has
  room for what is written, the source holds \<open>n\<close> bytes) is a hypothesis of the
  theorems that depend on it.
\<close>

definition store_bytes :: "bytes \<Rightarrow> nat \<Rightarrow> bytes \<Rightarrow> bytes" where
  "store_bytes dst off src = take off dst @ src @ drop (off + length src) dst"

definition OPENSSL_memcpy :: "bytes \<Rightarrow> nat \<Rightarrow> bytes \<Rightarrow> nat \<Rightarrow> bytes" where
  "OPENSSL_memcpy dst off src n = store_bytes dst off (take n src)"

text \<open>
  \<open>HKDF_extract\<close> (hkdf.c, lines 57 to 81). \<open>HMAC\<close> is keyed with the salt and run
  over the secret. \<open>len\<close> is an \<open>unsigned\<close>, widened into \<open>*out_len\<close>. What
  \<open>assert\<close> does is the build's choice, the parameter \<open>NDEBUG\<close>: when the macro is
  defined the \<open>assert\<close> is no code at all, and the function returns 1 with whatever
  \<open>len\<close> was reported; when it is not, a failing \<open>assert\<close> aborts the process and
  the model returns \<open>None\<close>.
\<close>

definition HKDF_extract ::
  "bool \<Rightarrow> ('ctx, 'md) hmac_ops \<Rightarrow> bytes \<Rightarrow> size_t \<Rightarrow> 'md \<Rightarrow> bytes \<Rightarrow> bytes
     \<Rightarrow> 'md extract_result option"
where
  "HKDF_extract NDEBUG ops out_key0 out_len0 digest secret salt =
     (case HMAC ops digest salt secret of
        None \<Rightarrow>
          Some \<lparr>r_ret = 0, r_out_key = out_key0,
                r_events = [FIPS_service_indicator_lock_state,
                            OPENSSL_PUT_ERROR ERR_R_HMAC_LIB,
                            FIPS_service_indicator_unlock_state],
                r_out_len = out_len0\<rparr>
      | Some md \<Rightarrow>
          let len = (of_nat (length md) :: 32 word);
              out_key = store_bytes out_key0 0 md;
              out_len = (ucast len :: size_t)
          in if \<not> NDEBUG \<and> out_len \<noteq> EVP_MD_size ops digest then None
             else
               Some \<lparr>r_ret = 1, r_out_key = out_key,
                     r_events = [FIPS_service_indicator_lock_state,
                                 FIPS_service_indicator_unlock_state],
                     r_out_len = out_len\<rparr>)"

text \<open>
  The HMAC calls of one iteration of the loop of \<open>HKDF_expand\<close> (lines 112 to 123),
  with the short-circuit order of \<open>&&\<close> and \<open>||\<close>: the result is whether all of them
  succeeded, the context and \<open>previous\<close>. \<open>i\<close> is below 255 in every call (the loop
  bound is checked before the loop), so the \<open>unsigned\<close> \<open>i + 1\<close> does not wrap and
  \<open>ctr\<close> is its low byte.
\<close>

definition expand_block ::
  "('ctx, 'md) hmac_ops \<Rightarrow> bytes \<Rightarrow> nat \<Rightarrow> nat \<Rightarrow> 'ctx \<Rightarrow> bytes \<Rightarrow> bool \<times> 'ctx \<times> bytes"
where
  "expand_block ops info digest_len i hmac previous =
     (let ctr = (of_nat (i + 1) :: u8);
          r0 = (if i \<noteq> 0 then
                  (let r = HMAC_Init_ex ops hmac None None
                   in if \<not> fst r then r
                      else HMAC_Update ops (snd r) (take digest_len previous))
                else (True, hmac))
      in if \<not> fst r0 then (False, snd r0, previous)
         else
           let r1 = HMAC_Update ops (snd r0) info
           in if \<not> fst r1 then (False, snd r1, previous)
              else
                let r2 = HMAC_Update ops (snd r1) [ctr]
                in if \<not> fst r2 then (False, snd r2, previous)
                   else
                     let r3 = HMAC_Final ops (snd r2)
                     in (fst r3, fst (snd r3), store_bytes previous 0 (snd (snd r3))))"

text \<open>
  The loop of \<open>HKDF_expand\<close> (lines 111 to 131). It runs only after the length
  check, where \<open>n\<close> is at most 255, \<open>done\<close> never exceeds \<open>out_len\<close> and no
  quantity wraps: the counters are natural numbers. The result is whether the loop
  ran to its end (false for \<open>goto out\<close>), the context, \<open>previous\<close> and \<open>out_key\<close>.
\<close>

function expand_loop ::
  "('ctx, 'md) hmac_ops \<Rightarrow> bytes \<Rightarrow> nat \<Rightarrow> nat \<Rightarrow> nat \<Rightarrow> nat \<Rightarrow> 'ctx \<Rightarrow> bytes \<Rightarrow> bytes \<Rightarrow> nat
     \<Rightarrow> bool \<times> 'ctx \<times> bytes \<times> bytes"
where
  "expand_loop ops info digest_len out_len n i hmac previous out_key done =
     (if i < n then
        (let b = expand_block ops info digest_len i hmac previous
         in if \<not> fst b then (False, fst (snd b), snd (snd b), out_key)
            else
              let todo = (if digest_len > out_len - done then out_len - done else digest_len);
                  out_key' = OPENSSL_memcpy out_key done (snd (snd b)) todo
              in expand_loop ops info digest_len out_len n (i + 1)
                   (fst (snd b)) (snd (snd b)) out_key' (done + todo))
      else (True, hmac, previous, out_key))"
  by pat_completeness auto
termination
  by (relation "measure (\<lambda>(ops, info, digest_len, out_len, n, i, rest). n - i)") auto

declare expand_loop.simps [simp del]

text \<open>
  \<open>HKDF_expand\<close> (lines 83 to 144). \<open>n\<close> and the overflow test are computed on
  \<open>size_t\<close>, where the sum wraps. The division assumes a digest size other than
  zero, which every digest has.
\<close>

definition HKDF_expand ::
  "('ctx, 'md) hmac_ops \<Rightarrow> bytes \<Rightarrow> bytes \<Rightarrow> size_t \<Rightarrow> 'md \<Rightarrow> bytes \<Rightarrow> bytes
     \<Rightarrow> ('ctx, 'md) expand_result"
where
  "HKDF_expand ops previous0 out_key0 out_len digest prk info =
     (let digest_len = EVP_MD_size ops digest;
          n = (out_len + digest_len - 1) div digest_len
      in if out_len + digest_len < out_len \<or> n > 255 then
           \<lparr>r_ret = 0, r_out_key = out_key0,
            r_events = [OPENSSL_PUT_ERROR HKDF_R_OUTPUT_TOO_LARGE],
            r_previous = previous0, r_hmac = None\<rparr>
         else
           let hmac0 = HMAC_CTX_init ops;
               r = HMAC_Init_ex ops hmac0 (Some prk) (Some digest);
               l = (if \<not> fst r then (False, snd r, previous0, out_key0)
                    else expand_loop ops info (unat digest_len) (unat out_len) (unat n) 0
                           (snd r) previous0 out_key0 0);
               ret = (if fst l then 1 else 0 :: int)
           in \<lparr>r_ret = ret, r_out_key = snd (snd (snd l)),
               r_events = [FIPS_service_indicator_lock_state,
                           FIPS_service_indicator_unlock_state,
                           HKDFExpand_verify_service_indicator digest]
                          @ (if ret \<noteq> 1 then [OPENSSL_PUT_ERROR ERR_R_HMAC_LIB] else []),
               r_previous = fst (snd (snd l)),
               r_hmac = Some (HMAC_CTX_cleanup ops (fst (snd l)))\<rparr>)"

text \<open>
  \<open>HKDF\<close> (lines 31 to 55). \<open>prk0\<close> and \<open>prk_len0\<close> are the initial content of its
  locals, \<open>previous0\<close> that of the local of the \<open>HKDF_expand\<close> it calls. \<open>||\<close> does
  not evaluate \<open>HKDF_expand\<close> when \<open>HKDF_extract\<close> returned zero. \<open>NDEBUG\<close> is the
  build's choice for the \<open>assert\<close> of \<open>HKDF_extract\<close>.
\<close>

definition HKDF ::
  "bool \<Rightarrow> ('ctx, 'md) hmac_ops \<Rightarrow> bytes \<Rightarrow> size_t \<Rightarrow> bytes \<Rightarrow> bytes \<Rightarrow> size_t \<Rightarrow> 'md \<Rightarrow> bytes \<Rightarrow> bytes \<Rightarrow> bytes
     \<Rightarrow> 'md hkdf_result option"
where
  "HKDF NDEBUG ops prk0 prk_len0 previous0 out_key0 out_len digest secret salt info =
     (case HKDF_extract NDEBUG ops prk0 prk_len0 digest secret salt of
        None \<Rightarrow> None
      | Some x \<Rightarrow>
          if r_ret x = 0 then
            Some \<lparr>r_ret = 0, r_out_key = out_key0,
                  r_events = [FIPS_service_indicator_lock_state] @ r_events x
                             @ [FIPS_service_indicator_unlock_state,
                                HKDF_verify_service_indicator digest salt (length info)],
                  r_prk = r_out_key x, r_prk_len = r_out_len x\<rparr>
          else
            let e = HKDF_expand ops previous0 out_key0 out_len digest
                      (take (unat (r_out_len x)) (r_out_key x)) info
            in Some \<lparr>r_ret = (if r_ret e = 0 then 0 else 1), r_out_key = r_out_key e,
                     r_events = [FIPS_service_indicator_lock_state] @ r_events x @ r_events e
                                @ [FIPS_service_indicator_unlock_state,
                                   HKDF_verify_service_indicator digest salt (length info)],
                     r_prk = r_out_key x, r_prk_len = r_out_len x\<rparr>)"

subsection \<open>The construction as the specification words it\<close>

text \<open>
  Section 4.2 of the specification: \<open>N = ceil(L / HashLen)\<close>; \<open>T(0)\<close> is empty and
  \<open>T(i) = KeyedHash(key = PRK, message = T(i-1) || info || single byte i)\<close>; the
  output is the first \<open>L\<close> bytes of \<open>T(1) || \<dots> || T(N)\<close>.
\<close>

definition blocks_needed :: "nat \<Rightarrow> nat \<Rightarrow> nat" where
  "blocks_needed L HashLen = (L + HashLen - 1) div HashLen"

fun T_block :: "(bytes \<Rightarrow> bytes \<Rightarrow> bytes) \<Rightarrow> bytes \<Rightarrow> bytes \<Rightarrow> nat \<Rightarrow> bytes" where
  "T_block KeyedHash PRK info 0 = []"
| "T_block KeyedHash PRK info (Suc i) =
     KeyedHash PRK (T_block KeyedHash PRK info i @ info @ [of_nat (Suc i)])"

definition OKM :: "(bytes \<Rightarrow> bytes \<Rightarrow> bytes) \<Rightarrow> bytes \<Rightarrow> bytes \<Rightarrow> nat \<Rightarrow> nat \<Rightarrow> bytes" where
  "OKM KeyedHash PRK info HashLen L =
     take L (concat (map (T_block KeyedHash PRK info) [1..<Suc (blocks_needed L HashLen)]))"

text \<open>
  Modelled from the spec: the HMAC implementation behind \<open>openssl/hmac.h\<close> is not
  part of these sources; section 6 of the specification gives its contract
  (\<open>Init(key, digest)\<close>, \<open>Update(context, bytes)\<close>, \<open>Final(context)\<close> yielding
  digest-length bytes, re-initialisable with the same key). For the parameters
  that stand for it: seen through \<open>view\<close>, a context holds a digest, a key and the
  message fed so far. Initialising a fresh context with a key and a
  digest succeeds and starts an empty message; on a context that holds a key,
  re-initialising without a key keeps the key and starts an empty message, an
  update appends, and the final call succeeds, writes
  \<open>KeyedHash digest key message\<close> and keeps the key. The keyed hash has the
  digest's output size.
\<close>

definition hmac_refines ::
  "('ctx, 'md) hmac_ops \<Rightarrow> ('md \<Rightarrow> bytes \<Rightarrow> bytes \<Rightarrow> bytes)
     \<Rightarrow> ('ctx \<Rightarrow> ('md \<times> bytes \<times> bytes) option) \<Rightarrow> bool"
where
  "hmac_refines ops KeyedHash view \<longleftrightarrow>
     (\<forall>digest key.
        fst (HMAC_Init_ex ops (HMAC_CTX_init ops) (Some key) (Some digest)) \<and>
        view (snd (HMAC_Init_ex ops (HMAC_CTX_init ops) (Some key) (Some digest)))
          = Some (digest, key, [])) \<and>
     (\<forall>c digest key msg. view c = Some (digest, key, msg) \<longrightarrow>
        fst (HMAC_Init_ex ops c None None) \<and>
        view (snd (HMAC_Init_ex ops c None None)) = Some (digest, key, []) \<and>
        (\<forall>x. fst (HMAC_Update ops c x) \<and>
             view (snd (HMAC_Update ops c x)) = Some (digest, key, msg @ x)) \<and>
        fst (HMAC_Final ops c) \<and>
        snd (snd (HMAC_Final ops c)) = KeyedHash digest key msg \<and>
        (\<exists>msg'. view (fst (snd (HMAC_Final ops c))) = Some (digest, key, msg'))) \<and>
     (\<forall>digest key msg. length (KeyedHash digest key msg) = unat (EVP_MD_size ops digest))"

text \<open>
  Modelled from the spec: the one-shot \<open>HMAC\<close> is not part of these sources either.
  Sections 3 and 6 of the specification give what it returns: the keyed hash is
  finalised to digest-length bytes, so whenever \<open>HMAC\<close> does not return \<open>NULL\<close> the
  number of bytes it wrote (and reports in \<open>len\<close>) is the digest's output size.
\<close>

definition HMAC_writes_digest_length :: "('ctx, 'md) hmac_ops \<Rightarrow> 'md \<Rightarrow> bool" where
  "HMAC_writes_digest_length ops digest \<longleftrightarrow>
     (\<forall>key msg md. HMAC ops digest key msg = Some md \<longrightarrow>
                    length md = unat (EVP_MD_size ops digest))"

text \<open>
  The composition a caller writes by hand: Extract, and only if it returned 1,
  Expand on the PRK it produced. What is observed of a call: the returned \<open>int\<close>,
  the output buffer and the errors put on the queue.
\<close>

fun put_errors :: "'md event list \<Rightarrow> err_reason list" where
  "put_errors [] = []"
| "put_errors (OPENSSL_PUT_ERROR r # es) = r # put_errors es"
| "put_errors (e # es) = put_errors es"

definition Extract_then_Expand ::
  "bool \<Rightarrow> ('ctx, 'md) hmac_ops \<Rightarrow> bytes \<Rightarrow> size_t \<Rightarrow> bytes \<Rightarrow> bytes \<Rightarrow> size_t \<Rightarrow> 'md \<Rightarrow> bytes \<Rightarrow> bytes \<Rightarrow> bytes
     \<Rightarrow> (int \<times> bytes \<times> err_reason list) option"
where
  "Extract_then_Expand NDEBUG ops prk0 prk_len0 previous0 out_key0 out_len digest secret salt info =
     (case HKDF_extract NDEBUG ops prk0 prk_len0 digest secret salt of
        None \<Rightarrow> None
      | Some x \<Rightarrow>
          if r_ret x \<noteq> 1 then Some (0, out_key0, put_errors (r_events x))
          else
            let PRK = take (unat (r_out_len x)) (r_out_key x);
                e = HKDF_expand ops previous0 out_key0 out_len digest PRK info
            in if r_ret e \<noteq> 1 then Some (0, r_out_key e, put_errors (r_events x) @ put_errors (r_events e))
               else Some (1, r_out_key e, put_errors (r_events x) @ put_errors (r_events e)))"

text \<open>
  The hash chain of the loop without the copying: \<open>k\<close> iterations from index \<open>i\<close>
  on, giving whether all succeeded, the context, \<open>previous\<close> and the blocks produced
  (the first \<open>digest_len\<close> bytes of \<open>previous\<close> after each iteration).
\<close>

fun hash_chain ::
  "('ctx, 'md) hmac_ops \<Rightarrow> bytes \<Rightarrow> nat \<Rightarrow> nat \<Rightarrow> nat \<Rightarrow> 'ctx \<Rightarrow> bytes
     \<Rightarrow> bool \<times> 'ctx \<times> bytes \<times> bytes list"
where
  "hash_chain ops info digest_len i 0 hmac previous = (True, hmac, previous, [])"
| "hash_chain ops info digest_len i (Suc k) hmac previous =
     (let b = expand_block ops info digest_len i hmac previous
      in if \<not> fst b then (False, fst (snd b), snd (snd b), [])
         else
           let r = hash_chain ops info digest_len (Suc i) k (fst (snd b)) (snd (snd b))
           in (fst r, fst (snd r), fst (snd (snd r)),
               take digest_len (snd (snd b)) # snd (snd (snd r))))"

subsection \<open>A small keyed hash for concrete runs\<close>

text \<open>
  A two-byte keyed hash over the unit digest, with a context that holds the key and
  the message fed so far; \<open>broken_ops\<close> is the same interface with a one-shot
  \<open>HMAC\<close> that returns \<open>NULL\<close>, \<open>sha256_size_ops\<close> the same interface with the
  digest size of SHA-256 (for the length check, which reads nothing else), and
  \<open>long_hmac_ops\<close> the same interface with a one-shot \<open>HMAC\<close> that writes three bytes
  where the digest size is two.
\<close>

definition toy_hash :: "unit \<Rightarrow> bytes \<Rightarrow> bytes \<Rightarrow> bytes" where
  "toy_hash d key msg = [of_nat (length key) + sum_list msg, of_nat (length msg) + 1]"

definition toy_ops :: "(bytes \<times> bytes, unit) hmac_ops" where
  "toy_ops =
     \<lparr>EVP_MD_size = (\<lambda>d. 2),
      HMAC = (\<lambda>d key msg. Some (toy_hash d key msg)),
      HMAC_CTX_init = ([], []),
      HMAC_Init_ex = (\<lambda>c key d. (True, (case key of None \<Rightarrow> fst c | Some k \<Rightarrow> k), [])),
      HMAC_Update = (\<lambda>c x. (True, fst c, snd c @ x)),
      HMAC_Final = (\<lambda>c. (True, c, toy_hash () (fst c) (snd c))),
      HMAC_CTX_cleanup = (\<lambda>c. ([], []))\<rparr>"

definition toy_view :: "bytes \<times> bytes \<Rightarrow> (unit \<times> bytes \<times> bytes) option" where
  "toy_view c = Some ((), fst c, snd c)"

definition broken_ops :: "(bytes \<times> bytes, unit) hmac_ops" where
  "broken_ops = toy_ops\<lparr>HMAC := (\<lambda>d key msg. None)\<rparr>"

definition sha256_size_ops :: "(bytes \<times> bytes, unit) hmac_ops" where
  "sha256_size_ops = toy_ops\<lparr>EVP_MD_size := (\<lambda>d. 32)\<rparr>"

definition long_hmac_ops :: "(bytes \<times> bytes, unit) hmac_ops" where
  "long_hmac_ops = toy_ops\<lparr>HMAC := (\<lambda>d key msg. Some [1, 2, 3])\<rparr>"


section \<open>Properties of the hardware entropy source\<close>

lemma not_all_ones_less: "(x::u64) \<noteq> - 1 \<Longrightarrow> x < - 1"
  by (simp add: word_order.not_eq_extremum)

lemma CRYPTO_rdrand_result:
  "CRYPTO_rdrand (v, cf) mem rdi =
     (if v = 0 \<or> v = - 1 then (0, mem) else (1, movq_store mem rdi v))"
  by (simp add: CRYPTO_rdrand_def Let_def not_all_ones_less)

text \<open>
  C4. The single-word draw is to fail whenever the instruction reports failure, and
  whenever it reports success with an all-zero or all-one value; every other
  successful value is stored and 1 is returned. By \<open>CRYPTO_rdrand_result\<close> the
  routine does reject the two values and store every other one, but it never reads
  the carry flag that \<open>rdrand\<close> sets: \<open>testq\<close> and \<open>cmpq\<close> overwrite it before
  \<open>adcq\<close> reads it, and after \<open>cmpq $-1\<close> on a value that is not all ones the
  carry is always set. At the outcome \<open>(5, failure)\<close> the routine returns 1 and
  stores 5, where the claim asks for a failure.
\<close>

theorem CRYPTO_rdrand_ignores_instruction_failure:
  "CRYPTO_rdrand (5, False) zero_memory 0 = (1, movq_store zero_memory 0 5)"
  by (simp add: CRYPTO_rdrand_result)

text \<open>
  C10. Whenever the single-word draw returns 0, the memory, and with it the
  caller's destination word, is unchanged: both jumps to \<open>L$err\<close> precede the store,
  and the path through the store returns 1.
\<close>

theorem CRYPTO_rdrand_failure_writes_nothing:
  "fst (CRYPTO_rdrand hw mem rdi) = 0 \<Longrightarrow> snd (CRYPTO_rdrand hw mem rdi) = mem"
  by (cases hw) (auto simp: CRYPTO_rdrand_result split: if_splits)

theorem CRYPTO_rdrand_failure_writes_nothing_witness:
  "fst (CRYPTO_rdrand (0, True) zero_memory 0) = 0 \<and>
   snd (CRYPTO_rdrand (0, True) zero_memory 0) = zero_memory \<and>
   fst (CRYPTO_rdrand (- 1, True) aa_memory 16) = 0 \<and>
   snd (CRYPTO_rdrand (- 1, True) aa_memory 16) = aa_memory \<and>
   fst (CRYPTO_rdrand (0, False) aa_memory 16) = 0 \<and>
   snd (CRYPTO_rdrand (0, False) aa_memory 16) = aa_memory"
  using CRYPTO_rdrand_failure_writes_nothing [of "(0, True)" zero_memory 0]
    CRYPTO_rdrand_failure_writes_nothing [of "(- 1, True)" aa_memory 16]
    CRYPTO_rdrand_failure_writes_nothing [of "(0, False)" aa_memory 16]
  by (simp add: CRYPTO_rdrand_result)

subsection \<open>The bulk filler\<close>

lemma rdrand_loop_numeral:
  "rdrand_loop (numeral n) hw k mem rdi rsi = rdrand_loop (Suc (pred_numeral n)) hw k mem rdi rsi"
  by (simp only: numeral_eq_Suc)

lemma of_nat_8n_eq_0: "n < 2 ^ 61 \<Longrightarrow> (of_nat (8 * n) :: u64) = 0 \<longleftrightarrow> n = 0"
proof -
  assume "n < 2 ^ 61"
  then have "8 * n < 2 ^ 64" by simp
  then have "unat (of_nat (8 * n) :: u64) = 8 * n"
    by (simp only: unat_of_nat) simp
  then show ?thesis
    by (metis mult_eq_0_iff of_nat_0 unat_0 zero_neq_numeral mult_zero_right)
qed

lemma of_nat_8Suc: "(of_nat (8 * Suc n) :: u64) - 8 = of_nat (8 * n)"
  by simp

lemma unat_of_nat_8n: "m < 8 * n \<Longrightarrow> n < 2 ^ 61 \<Longrightarrow> unat (of_nat m :: u64) = m"
proof -
  assume "m < 8 * n" "n < 2 ^ 61"
  then have "m < 2 ^ 64" by simp
  then show ?thesis by (simp only: unat_of_nat) simp
qed

text \<open>A run in which every draw is accepted stores one chunk per draw and returns 1.\<close>

lemma loop_all_accepted:
  "Suc n < 2 ^ 61 \<Longrightarrow> Suc n \<le> fuel \<Longrightarrow> (\<And>i. i < Suc n \<Longrightarrow> accepted (hw (k + i))) \<Longrightarrow>
   rdrand_loop fuel hw k mem rdi (of_nat (8 * Suc n))
     = Some (1, chunks_written hw k mem rdi (Suc n), k + Suc n)"
proof (induction n arbitrary: fuel k mem rdi)
  case 0
  from 0(2) obtain f where f: "fuel = Suc f" by (cases fuel) auto
  from 0(3)[of 0] have "accepted (hw k)" by simp
  then show ?case unfolding f by (simp add: accepted_def Let_def)
next
  case (Suc n)
  from Suc.prems(2) obtain f where f: "fuel = Suc f" by (cases fuel) auto
  from Suc.prems(3)[of 0] have a: "accepted (hw k)" by simp
  have "(of_nat (8 * Suc n) :: u64) \<noteq> 0"
    using of_nat_8n_eq_0[of "Suc n"] Suc.prems(1) by simp
  then have nz: "(of_nat (8 * Suc (Suc n)) :: u64) - 8 \<noteq> 0"
    by (simp only: of_nat_8Suc) simp
  have ih: "rdrand_loop f hw (Suc k) (movq_store mem rdi (fst (hw k))) (rdi + 8) (of_nat (8 * Suc n))
      = Some (1, chunks_written hw (Suc k) (movq_store mem rdi (fst (hw k))) (rdi + 8) (Suc n),
              Suc k + Suc n)"
  proof (rule Suc.IH)
    show "Suc n < 2 ^ 61" using Suc.prems(1) by simp
    show "Suc n \<le> f" using Suc.prems(2) f by simp
    fix i assume "i < Suc n"
    then show "accepted (hw (Suc k + i))" using Suc.prems(3)[of "Suc i"] by simp
  qed
  have "rdrand_loop (Suc f) hw k mem rdi (of_nat (8 * Suc (Suc n)))
      = rdrand_loop f hw (Suc k) (movq_store mem rdi (fst (hw k))) (rdi + 8)
          (of_nat (8 * Suc (Suc n)) - 8)"
    using a nz
    by (simp only: rdrand_loop.simps accepted_def Let_def word_bw_same if_False if_True simp_thms)
  also have "\<dots> = rdrand_loop f hw (Suc k) (movq_store mem rdi (fst (hw k))) (rdi + 8)
      (of_nat (8 * Suc n))"
    by (simp only: of_nat_8Suc)
  finally show ?case unfolding f using ih by simp
qed

text \<open>A run stops at the first draw that is not accepted, with the chunks before it stored.\<close>

lemma loop_first_rejected:
  "n < 2 ^ 61 \<Longrightarrow> j < n \<Longrightarrow> j < fuel \<Longrightarrow> (\<And>i. i < j \<Longrightarrow> accepted (hw (k + i))) \<Longrightarrow>
   \<not> accepted (hw (k + j)) \<Longrightarrow>
   rdrand_loop fuel hw k mem rdi (of_nat (8 * n))
     = Some (0, chunks_written hw k mem rdi j, k + Suc j)"
proof (induction j arbitrary: fuel k mem rdi n)
  case 0
  from 0(3) obtain f where f: "fuel = Suc f" by (cases fuel) auto
  from 0(5) show ?case unfolding f by (auto simp: accepted_def Let_def)
next
  case (Suc j)
  from Suc.prems(3) obtain f where f: "fuel = Suc f" by (cases fuel) auto
  from Suc.prems(2) obtain m where m: "n = Suc m" by (cases n) auto
  from Suc.prems(4)[of 0] have a: "accepted (hw k)" by simp
  have "(of_nat (8 * m) :: u64) \<noteq> 0"
    using of_nat_8n_eq_0[of m] Suc.prems(1,2) m by simp
  then have nz: "(of_nat (8 * Suc m) :: u64) - 8 \<noteq> 0"
    by (simp only: of_nat_8Suc) simp
  have ih: "rdrand_loop f hw (Suc k) (movq_store mem rdi (fst (hw k))) (rdi + 8) (of_nat (8 * m))
      = Some (0, chunks_written hw (Suc k) (movq_store mem rdi (fst (hw k))) (rdi + 8) j,
              Suc k + Suc j)"
  proof (rule Suc.IH)
    show "m < 2 ^ 61" using Suc.prems(1) m by simp
    show "j < m" using Suc.prems(2) m by simp
    show "j < f" using Suc.prems(3) f by simp
    show "\<not> accepted (hw (Suc k + j))" using Suc.prems(5) by simp
    fix i assume "i < j"
    then show "accepted (hw (Suc k + i))" using Suc.prems(4)[of "Suc i"] by simp
  qed
  have "rdrand_loop (Suc f) hw k mem rdi (of_nat (8 * Suc m))
      = rdrand_loop f hw (Suc k) (movq_store mem rdi (fst (hw k))) (rdi + 8)
          (of_nat (8 * Suc m) - 8)"
    using a nz
    by (simp only: rdrand_loop.simps accepted_def Let_def word_bw_same if_False if_True simp_thms)
  also have "\<dots> = rdrand_loop f hw (Suc k) (movq_store mem rdi (fst (hw k))) (rdi + 8)
      (of_nat (8 * m))"
    by (simp only: of_nat_8Suc)
  finally show ?case unfolding f m using ih by simp
qed

text \<open>The content of the memory after \<open>n\<close> chunks, byte by byte.\<close>

lemma unat_sub_8:
  "unat ((x::u64) - 8) = (if 8 \<le> unat x then unat x - 8 else unat x + 2 ^ 64 - 8)"
  by (simp add: unat_sub_if_size word_size)

lemma nat_mod8: "8 \<le> (d::nat) \<Longrightarrow> (d - 8) mod 8 = d mod 8"
  by (metis le_mod_geq)

lemma nat_div8: "8 \<le> (d::nat) \<Longrightarrow> Suc ((d - 8) div 8) = d div 8"
  by (simp add: le_div_geq)

lemma nat_lt8: "8 \<le> (d::nat) \<Longrightarrow> (d - 8 < 8 * n) = (d < 8 * Suc n)"
  by auto

lemma chunks_written_byte:
  "n < 2 ^ 61 \<Longrightarrow>
   chunks_written hw k mem rdi n a =
     (if unat (a - rdi) < 8 * n
      then ucast (drop_bit (8 * (unat (a - rdi) mod 8)) (fst (hw (k + unat (a - rdi) div 8))))
      else mem a)"
proof (induction n arbitrary: k mem rdi)
  case 0
  then show ?case by simp
next
  case (Suc n)
  let ?d = "unat (a - rdi)"
  have n: "n < 2 ^ 61" and n8: "8 * n + 8 < 2 ^ 64" using Suc.prems by simp_all
  have sub: "a - (rdi + 8) = (a - rdi) - 8" by simp
  have ih: "chunks_written hw k mem rdi (Suc n) a =
     (if unat (a - rdi - 8) < 8 * n
      then ucast (drop_bit (8 * (unat (a - rdi - 8) mod 8))
                   (fst (hw (Suc k + unat (a - rdi - 8) div 8))))
      else movq_store mem rdi (fst (hw k)) a)"
    using Suc.IH[OF n, of "Suc k" "movq_store mem rdi (fst (hw k))" "rdi + 8"]
    by (simp only: sub chunks_written.simps)
  show ?case
  proof (cases "?d < 8")
    case True
    then have u: "unat (a - rdi - 8) = ?d + 2 ^ 64 - 8" by (simp add: unat_sub_8)
    have lt: "a - rdi < 8" using True by (simp add: word_less_nat_alt)
    have "\<not> unat (a - rdi - 8) < 8 * n" using u n8 by simp
    then show ?thesis unfolding ih using True lt by (simp add: movq_store_def)
  next
    case False
    then have u: "unat (a - rdi - 8) = ?d - 8" by (simp add: unat_sub_8)
    have nlt: "\<not> a - rdi < 8" using False by (simp add: word_less_nat_alt)
    have ge: "8 \<le> ?d" using False by simp
    have m: "(?d - 8) mod 8 = ?d mod 8" by (rule nat_mod8[OF ge])
    have dv: "Suc ((?d - 8) div 8) = ?d div 8" by (rule nat_div8[OF ge])
    have c: "?d - 8 < 8 * n \<longleftrightarrow> ?d < 8 * Suc n" by (rule nat_lt8[OF ge])
    have dv2: "Suc k + (?d - 8) div 8 = k + ?d div 8"
      using dv by linarith
    have e1: "movq_store mem rdi (fst (hw k)) a = mem a"
      using nlt by (simp add: movq_store_def)
    show ?thesis unfolding ih u m c dv2 e1 by (rule refl)
  qed
qed

text \<open>
  C7. A length of 0 returns 1 at once, with the memory untouched and no draw made
  (whatever the fuel). For a length \<open>8 * n\<close> with \<open>n > 0\<close> (below \<open>2^64\<close>), a hardware
  whose next \<open>n\<close> draws all report success with a value that is neither all zeros
  nor all ones, and fuel for \<open>n\<close> iterations, the filler returns 1 after exactly
  \<open>n\<close> draws; byte \<open>b\<close> of chunk \<open>i\<close> holds byte \<open>b\<close> of the \<open>i\<close>-th value drawn, and
  every address outside the buffer keeps its content.
\<close>

theorem bulk_fill_writes_every_chunk:
  assumes n: "0 < n" "n < 2 ^ 61"
    and fuel: "n \<le> fuel"
    and hw: "\<forall>i<n. snd (hw (k + i)) \<and> fst (hw (k + i)) \<noteq> 0 \<and> fst (hw (k + i)) \<noteq> - 1"
  shows "CRYPTO_rdrand_multiple8_buf fuel0 hw k mem rdi 0 = Some (1, mem, k) \<and>
    (\<exists>mem'. CRYPTO_rdrand_multiple8_buf fuel hw k mem rdi (of_nat (8 * n)) = Some (1, mem', k + n) \<and>
       (\<forall>i<n. \<forall>b<8. mem' (rdi + of_nat (8 * i + b)) = ucast (drop_bit (8 * b) (fst (hw (k + i))))) \<and>
       (\<forall>a. 8 * n \<le> unat (a - rdi) \<longrightarrow> mem' a = mem a))"
proof -
  obtain m where m: "n = Suc m" using n(1) by (cases n) auto
  have acc: "\<And>i. i < Suc m \<Longrightarrow> accepted (hw (k + i))"
    using hw m by (simp add: accepted_def)
  have nz: "(of_nat (8 * n) :: u64) \<noteq> 0" using of_nat_8n_eq_0[of n] n by simp
  have run: "CRYPTO_rdrand_multiple8_buf fuel hw k mem rdi (of_nat (8 * n))
      = Some (1, chunks_written hw k mem rdi n, k + n)"
    using loop_all_accepted[of m fuel hw k mem rdi] n(2) fuel acc nz
    unfolding m CRYPTO_rdrand_multiple8_buf_def word_bw_same by simp
  have bytes: "chunks_written hw k mem rdi n (rdi + of_nat (8 * i + b))
      = ucast (drop_bit (8 * b) (fst (hw (k + i))))" if "i < n" "b < 8" for i b
  proof -
    have lt: "8 * i + b < 8 * n" using that by simp
    have u: "unat (rdi + of_nat (8 * i + b) - rdi) = 8 * i + b"
      using unat_of_nat_8n[OF lt n(2)] by simp
    show ?thesis
      unfolding chunks_written_byte[OF n(2)] u using lt that(2) by simp
  qed
  have frame: "chunks_written hw k mem rdi n a = mem a" if "8 * n \<le> unat (a - rdi)" for a
    unfolding chunks_written_byte[OF n(2)] using that by simp
  have zero: "CRYPTO_rdrand_multiple8_buf fuel0 hw k mem rdi 0 = Some (1, mem, k)"
    by (simp add: CRYPTO_rdrand_multiple8_buf_def)
  show ?thesis using zero run bytes frame by blast
qed

theorem bulk_fill_writes_every_chunk_witness:
  "CRYPTO_rdrand_multiple8_buf 0 hw_good 0 zero_memory 0 0 = Some (1, zero_memory, 0) \<and>
   (\<exists>mem'. CRYPTO_rdrand_multiple8_buf 2 hw_good 0 zero_memory 0 16 = Some (1, mem', 2) \<and>
      mem' 0 = 1 \<and> mem' 7 = 8 \<and> mem' 8 = 2 \<and> mem' 9 = 2 \<and> mem' 15 = 8 \<and> mem' 16 = 0)"
proof -
  have g: "\<forall>i<2. snd (hw_good (0 + i)) \<and> fst (hw_good (0 + i)) \<noteq> 0 \<and> fst (hw_good (0 + i)) \<noteq> - 1"
    by (simp add: hw_good_def less_2_cases_iff)
  from bulk_fill_writes_every_chunk[of 2 2 hw_good 0 0 zero_memory 0, OF _ _ _ g]
  obtain mem' where z: "CRYPTO_rdrand_multiple8_buf 0 hw_good 0 zero_memory 0 0 = Some (1, zero_memory, 0)"
    and r: "CRYPTO_rdrand_multiple8_buf 2 hw_good 0 zero_memory 0 16 = Some (1, mem', 2)"
    and b: "\<And>i b. i < 2 \<Longrightarrow> b < 8 \<Longrightarrow>
              mem' (0 + of_nat (8 * i + b)) = ucast (drop_bit (8 * b) (fst (hw_good (0 + i))))"
    and f: "\<And>a. 8 * 2 \<le> unat (a - 0) \<Longrightarrow> mem' a = zero_memory a"
    by auto
  have "mem' 0 = 1" using b[of 0 0] by (simp add: hw_good_def)
  moreover have "mem' 7 = 8" using b[of 0 7] by (simp add: hw_good_def drop_bit_eq_div)
  moreover have "mem' 8 = 2" using b[of 1 0] by (simp add: hw_good_def)
  moreover have "mem' 9 = 2" using b[of 1 1] by (simp add: hw_good_def drop_bit_eq_div)
  moreover have "mem' 15 = 8" using b[of 1 7] by (simp add: hw_good_def drop_bit_eq_div)
  moreover have "mem' 16 = 0" using f[of 16] by (simp add: zero_memory_def)
  ultimately show ?thesis using z r by blast
qed

text \<open>
  C3 (as the code has it). The filler makes one draw per chunk and never retries:
  for a length \<open>8 * n\<close>, if the draws before the \<open>j\<close>-th (\<open>j < n\<close>) are all accepted
  and the \<open>j\<close>-th draw either reports instruction failure or reports success with an
  all-zero or all-one value, the filler returns 0 after exactly \<open>j + 1\<close> draws, with
  nothing written at chunk \<open>j\<close> or beyond.
\<close>

theorem bulk_fill_aborts_on_first_rejected_draw:
  assumes n: "n < 2 ^ 61" "j < n"
    and fuel: "j < fuel"
    and before: "\<forall>i<j. snd (hw (k + i)) \<and> fst (hw (k + i)) \<noteq> 0 \<and> fst (hw (k + i)) \<noteq> - 1"
    and rejected: "\<not> snd (hw (k + j)) \<or> fst (hw (k + j)) = 0 \<or> fst (hw (k + j)) = - 1"
  shows "\<exists>mem'. CRYPTO_rdrand_multiple8_buf fuel hw k mem rdi (of_nat (8 * n))
                   = Some (0, mem', k + j + 1) \<and>
       (\<forall>a. 8 * j \<le> unat (a - rdi) \<longrightarrow> mem' a = mem a)"
proof -
  have acc: "\<And>i. i < j \<Longrightarrow> accepted (hw (k + i))"
    using before by (simp add: accepted_def)
  have rej: "\<not> accepted (hw (k + j))" using rejected by (auto simp: accepted_def)
  have nz: "(of_nat (8 * n) :: u64) \<noteq> 0" using of_nat_8n_eq_0[of n] n by simp
  have run: "CRYPTO_rdrand_multiple8_buf fuel hw k mem rdi (of_nat (8 * n))
      = Some (0, chunks_written hw k mem rdi j, k + j + 1)"
    using loop_first_rejected[of n j fuel hw k mem rdi] n fuel acc rej nz
    unfolding CRYPTO_rdrand_multiple8_buf_def word_bw_same by simp
  have j: "j < 2 ^ 61" using n by simp
  have frame: "chunks_written hw k mem rdi j a = mem a" if "8 * j \<le> unat (a - rdi)" for a
    unfolding chunks_written_byte[OF j] using that by simp
  show ?thesis using run frame by blast
qed

theorem bulk_fill_aborts_on_first_rejected_draw_witness:
  "(\<exists>mem'. CRYPTO_rdrand_multiple8_buf 1 hw_transient 0 zero_memory 0 8 = Some (0, mem', 1) \<and>
       mem' 0 = 0 \<and> mem' 7 = 0) \<and>
   (\<exists>mem'. CRYPTO_rdrand_multiple8_buf 2 hw_stuck 0 zero_memory 0 24 = Some (0, mem', 2) \<and>
       mem' 8 = 0 \<and> mem' 23 = 0)"
proof -
  from bulk_fill_aborts_on_first_rejected_draw[of 1 0 1 hw_transient 0 zero_memory 0]
  obtain mem' where r: "CRYPTO_rdrand_multiple8_buf 1 hw_transient 0 zero_memory 0 8 = Some (0, mem', 1)"
    and f: "\<And>a. 8 * 0 \<le> unat (a - 0) \<Longrightarrow> mem' a = zero_memory a"
    by (auto simp: hw_transient_def)
  have "mem' 0 = 0" "mem' 7 = 0" using f[of 0] f[of 7] by (simp_all add: zero_memory_def)
  then have a: "\<exists>mem'. CRYPTO_rdrand_multiple8_buf 1 hw_transient 0 zero_memory 0 8 = Some (0, mem', 1) \<and>
       mem' 0 = 0 \<and> mem' 7 = 0"
    using r by blast
  have before: "\<forall>i<1. snd (hw_stuck (0 + i)) \<and> fst (hw_stuck (0 + i)) \<noteq> 0 \<and> fst (hw_stuck (0 + i)) \<noteq> - 1"
    by (simp add: hw_stuck_def)
  have rej: "\<not> snd (hw_stuck (0 + 1)) \<or> fst (hw_stuck (0 + 1)) = 0 \<or> fst (hw_stuck (0 + 1)) = - 1"
    by (simp add: hw_stuck_def)
  from bulk_fill_aborts_on_first_rejected_draw[of 3 1 2 hw_stuck 0 zero_memory 0, OF _ _ _ before rej]
  obtain mem2 where r2: "CRYPTO_rdrand_multiple8_buf 2 hw_stuck 0 zero_memory 0 24 = Some (0, mem2, 2)"
    and f2: "\<And>a. 8 * 1 \<le> unat (a - 0) \<Longrightarrow> mem2 a = zero_memory a"
    by auto
  have "mem2 8 = 0" "mem2 23 = 0" using f2[of 8] f2[of 23] by (simp_all add: zero_memory_def)
  then have b: "\<exists>mem'. CRYPTO_rdrand_multiple8_buf 2 hw_stuck 0 zero_memory 0 24 = Some (0, mem', 2) \<and>
       mem' 8 = 0 \<and> mem' 23 = 0"
    using r2 by blast
  show ?thesis using a b by blast
qed

text \<open>
  The claim as written fails: with a first draw that reports instruction failure
  and a second that would succeed with the value 7, the filler asked for 8 bytes
  returns 0 after one draw and writes nothing, although it has fuel for a retry.
\<close>

theorem bulk_fill_does_not_retry_counterexample:
  "CRYPTO_rdrand_multiple8_buf 2 hw_transient 0 zero_memory 0 8 = Some (0, zero_memory, 1)"
  by (simp add: CRYPTO_rdrand_multiple8_buf_def rdrand_loop_numeral hw_transient_def)

section \<open>Properties of HKDF\<close>

subsection \<open>Buffers and the loop\<close>

lemma store_bytes_append:
  "off + length xs \<le> length dst \<Longrightarrow>
   store_bytes (store_bytes dst off xs) (off + length xs) ys = store_bytes dst off (xs @ ys)"
  by (simp add: store_bytes_def ac_simps)

lemma length_store_bytes:
  "off \<le> length dst \<Longrightarrow> length (store_bytes dst off src) = max (length dst) (off + length src)"
  by (auto simp: store_bytes_def)

lemma store_bytes_Nil: "store_bytes dst off [] = dst"
  by (simp add: store_bytes_def)

lemma expand_block_previous_length:
  "length previous \<le> length (snd (snd (expand_block ops info dl i hmac previous)))"
  by (simp add: expand_block_def Let_def length_store_bytes)

lemma take_block:
  "dl \<le> length p \<Longrightarrow>
   take (L - d) (take dl p @ rest) =
     take (if dl > L - d then L - d else dl) p @ take (L - (d + (if dl > L - d then L - d else dl))) rest"
  by (auto simp: min_def)

lemma expand_loop_chain:
  "i \<le> n \<Longrightarrow> d \<le> L \<Longrightarrow> L \<le> length out \<Longrightarrow> dl \<le> length p \<Longrightarrow>
   expand_loop ops info dl L n i h p out d =
     (let r = hash_chain ops info dl i (n - i) h p
      in (fst r, fst (snd r), fst (snd (snd r)),
          store_bytes out d (take (L - d) (concat (snd (snd (snd r)))))))"
proof (induction ops info dl L n i h p out d rule: expand_loop.induct)
  case (1 ops info dl L n i h p out d)
  show ?case
  proof (cases "i < n")
    case False
    then have "n - i = 0" by simp
    then show ?thesis using False by (subst expand_loop.simps) (simp add: store_bytes_Nil Let_def)
  next
    case True
    then obtain k where k: "n - i = Suc k" and k': "n - (i + 1) = k"
      by (cases "n - i") auto
    let ?b = "expand_block ops info dl i h p"
    show ?thesis
    proof (cases "fst ?b")
      case False
      then show ?thesis using True k by (subst expand_loop.simps) (simp add: Let_def store_bytes_Nil)
    next
      case ok: True
      let ?p = "snd (snd ?b)"
      let ?todo = "if dl > L - d then L - d else dl"
      let ?out = "OPENSSL_memcpy out d ?p ?todo"
      have pl: "dl \<le> length ?p"
        using "1.prems"(4) expand_block_previous_length[of p ops info dl i h] by linarith
      have tl: "length (take ?todo ?p) = ?todo" using pl by auto
      have dt: "d + ?todo \<le> L" using "1.prems"(2) by auto
      have ol: "length ?out = length out"
        using "1.prems"(2,3) dt tl unfolding OPENSSL_memcpy_def
        by (subst length_store_bytes) auto
      have ih: "expand_loop ops info dl L n (i + 1) (fst (snd ?b)) ?p ?out (d + ?todo) =
         (let r = hash_chain ops info dl (i + 1) (n - (i + 1)) (fst (snd ?b)) ?p
          in (fst r, fst (snd r), fst (snd (snd r)),
              store_bytes ?out (d + ?todo) (take (L - (d + ?todo)) (concat (snd (snd (snd r)))))))"
        using "1.IH"[OF True refl _ refl refl] ok True dt ol "1.prems"(3) pl
        by simp
      have merge: "store_bytes ?out (d + ?todo) (take (L - (d + ?todo)) rest)
          = store_bytes out d (take (L - d) (take dl ?p @ rest))" for rest
      proof -
        have "store_bytes (store_bytes out d (take ?todo ?p)) (d + length (take ?todo ?p))
                 (take (L - (d + ?todo)) rest)
              = store_bytes out d (take ?todo ?p @ take (L - (d + ?todo)) rest)"
          by (rule store_bytes_append) (use tl dt "1.prems"(3) in linarith)
        then show ?thesis
          unfolding OPENSSL_memcpy_def take_block[OF pl] tl .
      qed
      have "expand_loop ops info dl L n i h p out d
          = expand_loop ops info dl L n (i + 1) (fst (snd ?b)) ?p ?out (d + ?todo)"
        using True ok by (subst expand_loop.simps) (simp add: Let_def)
      then show ?thesis
        unfolding ih k k' using ok by (simp add: Let_def merge)
    qed
  qed
qed

subsection \<open>The length check\<close>

lemma overflow_test:
  "((x::size_t) + y < x) \<longleftrightarrow> 2 ^ 64 \<le> unat x + unat y"
  using no_plus_overflow_unat_size[of x y] by (simp add: word_size not_le[symmetric] not_less)

lemma unat_n:
  assumes "(dl::size_t) \<noteq> 0" "unat L + unat dl < 2 ^ 64"
  shows "unat ((L + dl - 1) div dl) = blocks_needed (unat L) (unat dl)"
proof -
  have a: "unat (L + dl) = unat L + unat dl"
    using assms(2) unat_add_lem[of L dl] by simp
  have "0 < unat dl" using assms(1) by (simp add: unat_gt_0)
  then have "L + dl \<noteq> 0" using a by (metis add_is_0 unat_0 less_numeral_extra(3))
  then have "1 \<le> L + dl" by (simp add: word_le_nat_alt a unat_gt_0[symmetric] Suc_le_eq)
  then have "unat (L + dl - 1) = unat L + unat dl - 1"
    by (simp add: unat_sub a)
  then show ?thesis by (simp add: unat_div blocks_needed_def)
qed

lemma blocks_needed_cover: "0 < dl \<Longrightarrow> L \<le> blocks_needed L dl * dl"
proof -
  assume dl: "0 < dl"
  let ?q = "(L + dl - 1) div dl" and ?r = "(L + dl - 1) mod dl"
  have "?q * dl + ?r = L + dl - 1" by simp
  moreover have "?r < dl" using dl by simp
  ultimately show ?thesis unfolding blocks_needed_def by linarith
qed

lemma blocks_needed_mono: "L1 \<le> L2 \<Longrightarrow> blocks_needed L1 dl \<le> blocks_needed L2 dl"
  unfolding blocks_needed_def by (simp add: div_le_mono)

lemma blocks_needed_0: "0 < dl \<Longrightarrow> blocks_needed 0 dl = 0"
  by (simp add: blocks_needed_def)

lemma length_check:
  assumes "(dl::size_t) \<noteq> 0"
  shows "(out_len + dl < out_len \<or> (out_len + dl - 1) div dl > 255) \<longleftrightarrow>
         (2 ^ 64 \<le> unat out_len + unat dl \<or> 255 < blocks_needed (unat out_len) (unat dl))"
proof (cases "2 ^ 64 \<le> unat out_len + unat dl")
  case True
  then show ?thesis by (simp add: overflow_test)
next
  case False
  then have lt: "unat out_len + unat dl < 2 ^ 64" by simp
  have "(out_len + dl - 1) div dl > 255 \<longleftrightarrow> 255 < blocks_needed (unat out_len) (unat dl)"
    by (simp add: word_less_nat_alt unat_n[OF assms lt])
  then show ?thesis using False by (simp add: overflow_test)
qed

lemma HKDF_expand_rejected:
  assumes "EVP_MD_size ops digest \<noteq> 0"
    and "2 ^ 64 \<le> unat out_len + unat (EVP_MD_size ops digest) \<or>
         255 < blocks_needed (unat out_len) (unat (EVP_MD_size ops digest))"
  shows "HKDF_expand ops previous0 out_key0 out_len digest prk info =
           \<lparr>r_ret = 0, r_out_key = out_key0,
            r_events = [OPENSSL_PUT_ERROR HKDF_R_OUTPUT_TOO_LARGE],
            r_previous = previous0, r_hmac = None\<rparr>"
  using assms(2) length_check[OF assms(1), of out_len]
  by (simp add: HKDF_expand_def Let_def)

lemma HKDF_expand_valid:
  assumes dl: "EVP_MD_size ops digest \<noteq> 0"
    and no: "unat out_len + unat (EVP_MD_size ops digest) < 2 ^ 64"
    and n: "blocks_needed (unat out_len) (unat (EVP_MD_size ops digest)) \<le> 255"
    and ol: "unat out_len \<le> length out_key0"
    and pl: "unat (EVP_MD_size ops digest) \<le> length previous0"
  shows "HKDF_expand ops previous0 out_key0 out_len digest prk info =
     (let r0 = HMAC_Init_ex ops (HMAC_CTX_init ops) (Some prk) (Some digest);
          c = hash_chain ops info (unat (EVP_MD_size ops digest)) 0
                (blocks_needed (unat out_len) (unat (EVP_MD_size ops digest))) (snd r0) previous0
      in if \<not> fst r0 then
           \<lparr>r_ret = 0, r_out_key = out_key0,
            r_events = [FIPS_service_indicator_lock_state, FIPS_service_indicator_unlock_state,
                        HKDFExpand_verify_service_indicator digest,
                        OPENSSL_PUT_ERROR ERR_R_HMAC_LIB],
            r_previous = previous0, r_hmac = Some (HMAC_CTX_cleanup ops (snd r0))\<rparr>
         else
           \<lparr>r_ret = (if fst c then 1 else 0),
            r_out_key = store_bytes out_key0 0 (take (unat out_len) (concat (snd (snd (snd c))))),
            r_events = [FIPS_service_indicator_lock_state, FIPS_service_indicator_unlock_state,
                        HKDFExpand_verify_service_indicator digest]
                       @ (if fst c then [] else [OPENSSL_PUT_ERROR ERR_R_HMAC_LIB]),
            r_previous = fst (snd (snd c)),
            r_hmac = Some (HMAC_CTX_cleanup ops (fst (snd c)))\<rparr>)"
proof -
  let ?dl = "EVP_MD_size ops digest"
  have chk: "\<not> (out_len + ?dl < out_len \<or> (out_len + ?dl - 1) div ?dl > 255)"
    using length_check[OF dl, of out_len] no n by simp
  have un: "unat ((out_len + ?dl - 1) div ?dl) = blocks_needed (unat out_len) (unat ?dl)"
    by (rule unat_n[OF dl no])
  have loop: "expand_loop ops info (unat ?dl) (unat out_len)
                 (blocks_needed (unat out_len) (unat ?dl)) 0 h previous0 out_key0 0 =
     (let r = hash_chain ops info (unat ?dl) 0 (blocks_needed (unat out_len) (unat ?dl)) h previous0
      in (fst r, fst (snd r), fst (snd (snd r)),
          store_bytes out_key0 0 (take (unat out_len) (concat (snd (snd (snd r)))))))" for h
    using expand_loop_chain[of 0 "blocks_needed (unat out_len) (unat ?dl)" 0 "unat out_len"
        out_key0 "unat ?dl" previous0 ops info h] ol pl by simp
  show ?thesis
    using chk unfolding HKDF_expand_def by (simp add: Let_def un loop)
qed

subsection \<open>The hash chain\<close>

lemma hash_chain_add:
  "hash_chain ops info dl i (k1 + k2) h p =
     (let r1 = hash_chain ops info dl i k1 h p
      in if \<not> fst r1 then r1
         else
           let r2 = hash_chain ops info dl (i + k1) k2 (fst (snd r1)) (fst (snd (snd r1)))
           in (fst r2, fst (snd r2), fst (snd (snd r2)),
               snd (snd (snd r1)) @ snd (snd (snd r2))))"
proof (induction k1 arbitrary: i h p)
  case 0
  then show ?case by simp
next
  case (Suc k1)
  show ?case
    by (simp add: Let_def Suc.IH[of "Suc i"] prod_eq_iff)
qed

lemma hash_chain_concat_length:
  "dl \<le> length p \<Longrightarrow> fst (hash_chain ops info dl i k h p) \<Longrightarrow>
   length (concat (snd (snd (snd (hash_chain ops info dl i k h p))))) = k * dl"
proof (induction k arbitrary: i h p)
  case 0
  then show ?case by simp
next
  case (Suc k)
  let ?b = "expand_block ops info dl i h p"
  have ok: "fst ?b" using Suc.prems(2) by (simp add: Let_def split: if_splits)
  have pl: "dl \<le> length (snd (snd ?b))"
    using Suc.prems(1) expand_block_previous_length[of p ops info dl i h] by linarith
  have rest: "fst (hash_chain ops info dl (Suc i) k (fst (snd ?b)) (snd (snd ?b)))"
    using Suc.prems(2) ok by (simp add: Let_def)
  show ?case using ok pl Suc.IH[OF pl rest] by (simp add: Let_def)
qed

lemma take_store_bytes_0:
  "n \<le> length xs \<Longrightarrow> take n (store_bytes dst 0 xs) = take n xs"
  by (simp add: store_bytes_def)

lemma store_bytes_0: "store_bytes dst 0 xs = xs @ drop (length xs) dst"
  by (simp add: store_bytes_def)

lemma HKDF_expand_ret_01: "r_ret (HKDF_expand ops previous0 out_key0 out_len digest prk info) \<in> {0, 1}"
  by (simp add: HKDF_expand_def Let_def)

subsection \<open>The chain under the keyed-hash contract\<close>

lemma hmac_refines_Init:
  "hmac_refines ops KH view \<Longrightarrow>
   fst (HMAC_Init_ex ops (HMAC_CTX_init ops) (Some key) (Some digest)) \<and>
   view (snd (HMAC_Init_ex ops (HMAC_CTX_init ops) (Some key) (Some digest))) = Some (digest, key, [])"
  unfolding hmac_refines_def by blast

lemma hmac_refines_Reinit:
  "hmac_refines ops KH view \<Longrightarrow> view c = Some (digest, key, msg) \<Longrightarrow>
   fst (HMAC_Init_ex ops c None None) \<and>
   view (snd (HMAC_Init_ex ops c None None)) = Some (digest, key, [])"
  unfolding hmac_refines_def by blast

lemma hmac_refines_Update:
  "hmac_refines ops KH view \<Longrightarrow> view c = Some (digest, key, msg) \<Longrightarrow>
   fst (HMAC_Update ops c x) \<and> view (snd (HMAC_Update ops c x)) = Some (digest, key, msg @ x)"
  unfolding hmac_refines_def by blast

lemma hmac_refines_Final:
  "hmac_refines ops KH view \<Longrightarrow> view c = Some (digest, key, msg) \<Longrightarrow>
   fst (HMAC_Final ops c) \<and> snd (snd (HMAC_Final ops c)) = KH digest key msg \<and>
   (\<exists>msg'. view (fst (snd (HMAC_Final ops c))) = Some (digest, key, msg'))"
  unfolding hmac_refines_def by blast

lemma hmac_refines_length:
  "hmac_refines ops KH view \<Longrightarrow> length (KH digest key msg) = unat (EVP_MD_size ops digest)"
  unfolding hmac_refines_def by blast

text \<open>One iteration computes the next block of the specification.\<close>

lemma expand_block_refines:
  assumes R: "hmac_refines ops KH view"
    and v: "view h = Some (digest, prk, m)"
    and m0: "i = 0 \<Longrightarrow> m = []"
    and prev: "0 < i \<Longrightarrow> take dl p = T_block (KH digest) prk info i"
  shows "fst (expand_block ops info dl i h p) \<and>
         snd (snd (expand_block ops info dl i h p))
           = store_bytes p 0 (T_block (KH digest) prk info (Suc i)) \<and>
         (\<exists>m'. view (fst (snd (expand_block ops info dl i h p))) = Some (digest, prk, m'))"
proof -
  let ?r0 = "if i \<noteq> 0 then
                  (let r = HMAC_Init_ex ops h None None
                   in if \<not> fst r then r
                      else HMAC_Update ops (snd r) (take dl p))
                else (True, h)"
  have s0: "fst ?r0 \<and> view (snd ?r0) = Some (digest, prk, T_block (KH digest) prk info i)"
  proof (cases "i = 0")
    case True
    then show ?thesis using v m0 by simp
  next
    case False
    note a = hmac_refines_Reinit[OF R v]
    note b = hmac_refines_Update[OF R conjunct2[OF a], of "take dl p"]
    show ?thesis using False a b prev by (simp add: Let_def)
  qed
  note s1 = hmac_refines_Update[OF R conjunct2[OF s0], of info]
  note s2 = hmac_refines_Update[OF R conjunct2[OF s1], of "[of_nat (i + 1)]"]
  note s3 = hmac_refines_Final[OF R conjunct2[OF s2]]
  have e: "expand_block ops info dl i h p =
      (let r3 = HMAC_Final ops (snd (HMAC_Update ops (snd (HMAC_Update ops (snd ?r0) info)) [of_nat (i + 1)]))
       in (fst r3, fst (snd r3), store_bytes p 0 (snd (snd r3))))"
    using s0 s1 s2 unfolding expand_block_def Let_def by simp
  show ?thesis unfolding e using s3 by (simp add: Let_def)
qed

lemma hash_chain_refines:
  assumes R: "hmac_refines ops KH view"
    and dl: "dl = unat (EVP_MD_size ops digest)"
  shows "view h = Some (digest, prk, m) \<Longrightarrow> (i = 0 \<longrightarrow> m = []) \<Longrightarrow>
         (0 < i \<longrightarrow> take dl p = T_block (KH digest) prk info i) \<Longrightarrow>
         fst (hash_chain ops info dl i k h p) \<and>
         snd (snd (snd (hash_chain ops info dl i k h p)))
           = map (T_block (KH digest) prk info) [Suc i..<Suc (i + k)] \<and>
         (0 < k \<longrightarrow> take dl (fst (snd (snd (hash_chain ops info dl i k h p))))
                      = T_block (KH digest) prk info (i + k))"
proof (induction k arbitrary: i h p m)
  case 0
  then show ?case by simp
next
  case (Suc k)
  let ?b = "expand_block ops info dl i h p"
  from expand_block_refines[OF R Suc.prems(1), of i dl p info] Suc.prems(2,3)
  obtain m' where ok: "fst ?b"
    and p': "snd (snd ?b) = store_bytes p 0 (T_block (KH digest) prk info (Suc i))"
    and v': "view (fst (snd ?b)) = Some (digest, prk, m')"
    by auto
  have len: "length (T_block (KH digest) prk info (Suc i)) = dl"
    using hmac_refines_length[OF R] dl by simp
  have tk: "take dl (snd (snd ?b)) = T_block (KH digest) prk info (Suc i)"
    unfolding p' store_bytes_0 using len by simp
  note ih = Suc.IH[OF v', of "Suc i" "snd (snd ?b)"]
  have ih': "fst (hash_chain ops info dl (Suc i) k (fst (snd ?b)) (snd (snd ?b))) \<and>
         snd (snd (snd (hash_chain ops info dl (Suc i) k (fst (snd ?b)) (snd (snd ?b)))))
           = map (T_block (KH digest) prk info) [Suc (Suc i)..<Suc (Suc i + k)] \<and>
         (0 < k \<longrightarrow> take dl (fst (snd (snd (hash_chain ops info dl (Suc i) k (fst (snd ?b)) (snd (snd ?b))))))
                      = T_block (KH digest) prk info (Suc i + k))"
    using ih tk by simp
  have up: "[Suc i..<Suc (i + Suc k)] = Suc i # [Suc (Suc i)..<Suc (Suc i + k)]"
    by (simp add: upt_conv_Cons)
  show ?case
  proof (cases "k = 0")
    case True
    then show ?thesis using ok tk by (simp add: Let_def)
  next
    case False
    then show ?thesis using ok tk ih' unfolding up by (simp add: Let_def)
  qed
qed

subsection \<open>Concrete runs over the small keyed hash\<close>

lemmas toy_eval = HKDF_expand_def HKDF_extract_def HKDF_def toy_ops_def broken_ops_def toy_hash_def
  expand_loop.simps expand_block_def Let_def store_bytes_def OPENSSL_memcpy_def

lemma T_block_numeral:
  "T_block KH PRK info (numeral n) =
     KH PRK (T_block KH PRK info (pred_numeral n) @ info @ [of_nat (numeral n)])"
  by (simp add: numeral_eq_Suc)

lemma upt_1_3: "[Suc 0..<3] = [Suc 0, 2]"
  by (simp add: upt_conv_Cons numeral_3_eq_3 numeral_2_eq_2)

lemma toy_refines: "hmac_refines toy_ops toy_hash toy_view"
  by (simp add: hmac_refines_def toy_ops_def toy_view_def toy_hash_def)

lemma toy_size: "EVP_MD_size toy_ops () = 2"
  by (simp add: toy_ops_def)

lemma toy_expand_3:
  "HKDF_expand toy_ops [0, 0] [0, 0, 0] 3 () [7] [9] =
     \<lparr>r_ret = 1, r_out_key = [11, 3, 26],
      r_events = [FIPS_service_indicator_lock_state, FIPS_service_indicator_unlock_state,
                  HKDFExpand_verify_service_indicator ()],
      r_previous = [26, 5], r_hmac = Some ([], [])\<rparr>"
  by (simp add: toy_eval)

lemma toy_expand_1:
  "HKDF_expand toy_ops [0, 0] [0, 0, 0] 1 () [7] [9] =
     \<lparr>r_ret = 1, r_out_key = [11, 0, 0],
      r_events = [FIPS_service_indicator_lock_state, FIPS_service_indicator_unlock_state,
                  HKDFExpand_verify_service_indicator ()],
      r_previous = [11, 3], r_hmac = Some ([], [])\<rparr>"
  by (simp add: toy_eval)

lemma toy_extract:
  "HKDF_extract NDEBUG toy_ops [0, 0] 0 () [1, 2] [3] =
     Some \<lparr>r_ret = 1, r_out_key = [4, 3],
           r_events = [FIPS_service_indicator_lock_state, FIPS_service_indicator_unlock_state],
           r_out_len = 2\<rparr>"
  by (simp add: toy_eval)

lemma toy_hkdf:
  "HKDF NDEBUG toy_ops [0, 0] 0 [0, 0] [0, 0, 0] 3 () [1, 2] [3] [9] =
     Some \<lparr>r_ret = 1, r_out_key = [12, 3, 28],
           r_events = [FIPS_service_indicator_lock_state,
                       FIPS_service_indicator_lock_state, FIPS_service_indicator_unlock_state,
                       FIPS_service_indicator_lock_state, FIPS_service_indicator_unlock_state,
                       HKDFExpand_verify_service_indicator (),
                       FIPS_service_indicator_unlock_state,
                       HKDF_verify_service_indicator () [3] 1],
           r_prk = [4, 3], r_prk_len = 2\<rparr>"
  by (simp add: toy_eval)


subsection \<open>HKDF-Expand\<close>

text \<open>
  C1. For a digest of output size \<open>HashLen > 0\<close>, any PRK and info, and a valid length
  \<open>L\<close> (\<open>L + HashLen\<close> fits \<open>size_t\<close> and \<open>N = ceil(L / HashLen)\<close> is at most 255;
  \<open>L = 0\<close> is valid), over a keyed hash that meets its contract, an \<open>out_key\<close> with
  room for \<open>L\<close> bytes and a \<open>previous\<close> with room for a digest: \<open>HKDF_expand\<close>
  returns 1 and \<open>out_key\<close> holds the first \<open>L\<close> bytes of \<open>T(1) || \<dots> || T(N)\<close>,
  where \<open>T(i) = KeyedHash(PRK, T(i-1) || info || byte i)\<close> and \<open>T(0)\<close> is empty,
  followed by its old content beyond \<open>L\<close>. With \<open>L = 0\<close> it returns 1 and \<open>out_key\<close>
  is unchanged.
\<close>

theorem HKDF_expand_computes_OKM:
  assumes R: "hmac_refines ops KeyedHash view"
    and dl: "EVP_MD_size ops digest \<noteq> 0"
    and no: "unat out_len + unat (EVP_MD_size ops digest) < 2 ^ 64"
    and n: "blocks_needed (unat out_len) (unat (EVP_MD_size ops digest)) \<le> 255"
    and ol: "unat out_len \<le> length out_key0"
    and pl: "unat (EVP_MD_size ops digest) \<le> length previous0"
  shows "r_ret (HKDF_expand ops previous0 out_key0 out_len digest prk info) = 1 \<and>
         r_out_key (HKDF_expand ops previous0 out_key0 out_len digest prk info)
           = OKM (KeyedHash digest) prk info (unat (EVP_MD_size ops digest)) (unat out_len)
             @ drop (unat out_len) out_key0 \<and>
         (out_len = 0 \<longrightarrow>
            r_out_key (HKDF_expand ops previous0 out_key0 out_len digest prk info) = out_key0)"
proof -
  let ?dl = "unat (EVP_MD_size ops digest)"
  let ?N = "blocks_needed (unat out_len) ?dl"
  let ?r0 = "HMAC_Init_ex ops (HMAC_CTX_init ops) (Some prk) (Some digest)"
  let ?c = "hash_chain ops info ?dl 0 ?N (snd ?r0) previous0"
  let ?e = "HKDF_expand ops previous0 out_key0 out_len digest prk info"
  note e = HKDF_expand_valid[OF dl no n ol pl, of prk info]
  note i = hmac_refines_Init[OF R, of prk digest]
  have c: "fst ?c \<and> snd (snd (snd ?c)) = map (T_block (KeyedHash digest) prk info) [Suc 0..<Suc (0 + ?N)]"
    using hash_chain_refines[OF R refl conjunct2[OF i], of 0 previous0 info ?N] by simp
  have dlp: "0 < ?dl" using dl by (simp add: unat_gt_0)
  have len: "length (concat (snd (snd (snd ?c)))) = ?N * ?dl"
    by (rule hash_chain_concat_length[OF pl conjunct1[OF c]])
  have cov: "unat out_len \<le> ?N * ?dl" by (rule blocks_needed_cover[OF dlp])
  have ret: "r_ret ?e = 1" unfolding e using i c by (simp add: Let_def)
  have "r_out_key ?e = store_bytes out_key0 0 (take (unat out_len) (concat (snd (snd (snd ?c)))))"
    unfolding e using i by (simp add: Let_def)
  also have "\<dots> = take (unat out_len) (concat (snd (snd (snd ?c)))) @ drop (unat out_len) out_key0"
    unfolding store_bytes_0 using len cov by (simp add: min_def)
  also have "take (unat out_len) (concat (snd (snd (snd ?c))))
      = OKM (KeyedHash digest) prk info ?dl (unat out_len)"
    using c by (simp add: OKM_def)
  finally have out: "r_out_key ?e = OKM (KeyedHash digest) prk info ?dl (unat out_len)
             @ drop (unat out_len) out_key0" .
  have "out_len = 0 \<longrightarrow> r_out_key ?e = out_key0"
    unfolding out by (simp add: OKM_def)
  then show ?thesis using ret out by simp
qed

theorem HKDF_expand_computes_OKM_witness:
  "r_ret (HKDF_expand toy_ops [0, 0] [0, 0, 0] 3 () [7] [9]) = 1 \<and>
   r_out_key (HKDF_expand toy_ops [0, 0] [0, 0, 0] 3 () [7] [9]) = [11, 3, 26] \<and>
   OKM (toy_hash ()) [7] [9] 2 3 = [11, 3, 26] \<and>
   r_out_key (HKDF_expand toy_ops [0, 0] [0, 0, 0] 0 () [7] [9]) = [0, 0, 0]"
proof -
  have okm: "OKM (toy_hash ()) [7] [9] 2 3 = [11, 3, 26]"
    by (simp add: OKM_def blocks_needed_def upt_1_3 T_block_numeral toy_hash_def)
  from HKDF_expand_computes_OKM[OF toy_refines, of "()" 3 "[0, 0, 0]" "[0, 0]" "[7]" "[9]"]
  have a: "r_ret (HKDF_expand toy_ops [0, 0] [0, 0, 0] 3 () [7] [9]) = 1 \<and>
           r_out_key (HKDF_expand toy_ops [0, 0] [0, 0, 0] 3 () [7] [9])
             = OKM (toy_hash ()) [7] [9] 2 3 @ drop 3 [0, 0, 0]"
    by (simp add: toy_size blocks_needed_def)
  from HKDF_expand_computes_OKM[OF toy_refines, of "()" 0 "[0, 0, 0]" "[0, 0]" "[7]" "[9]"]
  have b: "r_out_key (HKDF_expand toy_ops [0, 0] [0, 0, 0] 0 () [7] [9]) = [0, 0, 0]"
    by (simp add: toy_size blocks_needed_def OKM_def)
  show ?thesis using a b okm by simp
qed

text \<open>
  C2. For a digest size other than zero, \<open>HKDF_expand\<close> returns 0 with
  \<open>HKDF_R_OUTPUT_TOO_LARGE\<close> on the error queue exactly when \<open>L + HashLen\<close> does
  not fit \<open>size_t\<close> or \<open>ceil(L / HashLen)\<close> exceeds 255; whenever that error is put,
  nothing else has happened: \<open>out_key\<close> and \<open>previous\<close> are as before and the HMAC
  context was never initialised. With \<open>HashLen = 32\<close>, \<open>L = 8193\<close> fails this way.
\<close>

theorem HKDF_expand_output_too_large:
  assumes "EVP_MD_size ops digest \<noteq> 0"
  shows "((r_ret (HKDF_expand ops previous0 out_key0 out_len digest prk info) = 0 \<and>
           OPENSSL_PUT_ERROR HKDF_R_OUTPUT_TOO_LARGE
             \<in> set (r_events (HKDF_expand ops previous0 out_key0 out_len digest prk info)))
          \<longleftrightarrow> (2 ^ 64 \<le> unat out_len + unat (EVP_MD_size ops digest) \<or>
               255 < blocks_needed (unat out_len) (unat (EVP_MD_size ops digest)))) \<and>
         (OPENSSL_PUT_ERROR HKDF_R_OUTPUT_TOO_LARGE
             \<in> set (r_events (HKDF_expand ops previous0 out_key0 out_len digest prk info))
          \<longrightarrow> HKDF_expand ops previous0 out_key0 out_len digest prk info =
                \<lparr>r_ret = 0, r_out_key = out_key0,
                 r_events = [OPENSSL_PUT_ERROR HKDF_R_OUTPUT_TOO_LARGE],
                 r_previous = previous0, r_hmac = None\<rparr>) \<and>
         (EVP_MD_size ops digest = 32 \<longrightarrow>
            HKDF_expand ops previous0 out_key0 8193 digest prk info =
                \<lparr>r_ret = 0, r_out_key = out_key0,
                 r_events = [OPENSSL_PUT_ERROR HKDF_R_OUTPUT_TOO_LARGE],
                 r_previous = previous0, r_hmac = None\<rparr>)"
proof -
  let ?e = "HKDF_expand ops previous0 out_key0 out_len digest prk info"
  let ?bad = "2 ^ 64 \<le> unat out_len + unat (EVP_MD_size ops digest) \<or>
               255 < blocks_needed (unat out_len) (unat (EVP_MD_size ops digest))"
  have rej: "?bad \<Longrightarrow> ?e = \<lparr>r_ret = 0, r_out_key = out_key0,
                 r_events = [OPENSSL_PUT_ERROR HKDF_R_OUTPUT_TOO_LARGE],
                 r_previous = previous0, r_hmac = None\<rparr>"
    by (rule HKDF_expand_rejected[OF assms])
  have acc: "\<not> ?bad \<Longrightarrow> OPENSSL_PUT_ERROR HKDF_R_OUTPUT_TOO_LARGE \<notin> set (r_events ?e)"
    using length_check[OF assms, of out_len] by (simp add: HKDF_expand_def Let_def)
  have a: "(r_ret ?e = 0 \<and> OPENSSL_PUT_ERROR HKDF_R_OUTPUT_TOO_LARGE \<in> set (r_events ?e)) \<longleftrightarrow> ?bad"
    using rej acc by (cases ?bad) simp_all
  have b: "OPENSSL_PUT_ERROR HKDF_R_OUTPUT_TOO_LARGE \<in> set (r_events ?e) \<longrightarrow>
           ?e = \<lparr>r_ret = 0, r_out_key = out_key0,
                 r_events = [OPENSSL_PUT_ERROR HKDF_R_OUTPUT_TOO_LARGE],
                 r_previous = previous0, r_hmac = None\<rparr>"
    using rej acc by (cases ?bad) simp_all
  have c: "EVP_MD_size ops digest = 32 \<longrightarrow>
            HKDF_expand ops previous0 out_key0 8193 digest prk info =
                \<lparr>r_ret = 0, r_out_key = out_key0,
                 r_events = [OPENSSL_PUT_ERROR HKDF_R_OUTPUT_TOO_LARGE],
                 r_previous = previous0, r_hmac = None\<rparr>"
  proof
    assume s: "EVP_MD_size ops digest = 32"
    have "255 < blocks_needed (unat (8193 :: size_t)) (unat (32 :: size_t))"
      by (simp add: blocks_needed_def)
    then show "HKDF_expand ops previous0 out_key0 8193 digest prk info =
                \<lparr>r_ret = 0, r_out_key = out_key0,
                 r_events = [OPENSSL_PUT_ERROR HKDF_R_OUTPUT_TOO_LARGE],
                 r_previous = previous0, r_hmac = None\<rparr>"
      using HKDF_expand_rejected[OF assms, of 8193 previous0 out_key0 prk info] s by simp
  qed
  show ?thesis using a b c by blast
qed

theorem HKDF_expand_output_too_large_witness:
  "HKDF_expand sha256_size_ops [0, 0] [0, 0, 0] 8193 () [7] [9] =
     \<lparr>r_ret = 0, r_out_key = [0, 0, 0],
      r_events = [OPENSSL_PUT_ERROR HKDF_R_OUTPUT_TOO_LARGE],
      r_previous = [0, 0], r_hmac = None\<rparr> \<and>
   r_ret (HKDF_expand toy_ops [0, 0] [0, 0, 0] 511 () [7] [9]) = 0 \<and>
   OPENSSL_PUT_ERROR HKDF_R_OUTPUT_TOO_LARGE
     \<in> set (r_events (HKDF_expand toy_ops [0, 0] [0, 0, 0] 511 () [7] [9])) \<and>
   \<not> (r_ret (HKDF_expand toy_ops [0, 0] [0, 0, 0] 3 () [7] [9]) = 0 \<and>
      OPENSSL_PUT_ERROR HKDF_R_OUTPUT_TOO_LARGE
        \<in> set (r_events (HKDF_expand toy_ops [0, 0] [0, 0, 0] 3 () [7] [9])))"
proof -
  have s32: "EVP_MD_size sha256_size_ops () = 32"
    by (simp add: sha256_size_ops_def toy_ops_def)
  have a: "HKDF_expand sha256_size_ops [0, 0] [0, 0, 0] 8193 () [7] [9] =
     \<lparr>r_ret = 0, r_out_key = [0, 0, 0],
      r_events = [OPENSSL_PUT_ERROR HKDF_R_OUTPUT_TOO_LARGE],
      r_previous = [0, 0], r_hmac = None\<rparr>"
    using conjunct2[OF conjunct2[OF HKDF_expand_output_too_large
          [of sha256_size_ops "()" "[0, 0]" "[0, 0, 0]" 8193 "[7]" "[9]"]]]
    by (simp add: s32)
  have b: "r_ret (HKDF_expand toy_ops [0, 0] [0, 0, 0] 511 () [7] [9]) = 0 \<and>
      OPENSSL_PUT_ERROR HKDF_R_OUTPUT_TOO_LARGE
        \<in> set (r_events (HKDF_expand toy_ops [0, 0] [0, 0, 0] 511 () [7] [9]))"
    using conjunct1[OF HKDF_expand_output_too_large
          [of toy_ops "()" "[0, 0]" "[0, 0, 0]" 511 "[7]" "[9]"]]
    by (simp add: toy_size blocks_needed_def)
  have c: "\<not> (r_ret (HKDF_expand toy_ops [0, 0] [0, 0, 0] 3 () [7] [9]) = 0 \<and>
      OPENSSL_PUT_ERROR HKDF_R_OUTPUT_TOO_LARGE
        \<in> set (r_events (HKDF_expand toy_ops [0, 0] [0, 0, 0] 3 () [7] [9])))"
    using conjunct1[OF HKDF_expand_output_too_large
          [of toy_ops "()" "[0, 0]" "[0, 0, 0]" 3 "[7]" "[9]"]]
    by (simp add: toy_size blocks_needed_def)
  show ?thesis using a b c by blast
qed

text \<open>
  C6. For lengths \<open>L1 < L2\<close>, the same digest, PRK and info: when \<open>HKDF_expand\<close>
  returns 1 for \<open>L2\<close>, it returns 1 for \<open>L1\<close> as well, and the \<open>L1\<close> bytes it writes
  are the first \<open>L1\<close> bytes written for \<open>L2\<close>. This holds for any behaviour of the
  HMAC interface.
\<close>

theorem HKDF_expand_prefix_consistent:
  assumes dl: "EVP_MD_size ops digest \<noteq> 0"
    and pl: "unat (EVP_MD_size ops digest) \<le> length previous0"
    and ol: "unat L2 \<le> length out_key0"
    and lt: "L1 < L2"
    and ok: "r_ret (HKDF_expand ops previous0 out_key0 L2 digest prk info) = 1"
  shows "r_ret (HKDF_expand ops previous0 out_key0 L1 digest prk info) = 1 \<and>
         take (unat L1) (r_out_key (HKDF_expand ops previous0 out_key0 L1 digest prk info))
           = take (unat L1) (r_out_key (HKDF_expand ops previous0 out_key0 L2 digest prk info))"
proof -
  let ?dl = "unat (EVP_MD_size ops digest)"
  let ?N1 = "blocks_needed (unat L1) ?dl" and ?N2 = "blocks_needed (unat L2) ?dl"
  let ?r0 = "HMAC_Init_ex ops (HMAC_CTX_init ops) (Some prk) (Some digest)"
  let ?c1 = "hash_chain ops info ?dl 0 ?N1 (snd ?r0) previous0"
  let ?c2 = "hash_chain ops info ?dl 0 ?N2 (snd ?r0) previous0"
  have dlp: "0 < ?dl" using dl by (simp add: unat_gt_0)
  have l12: "unat L1 < unat L2" using lt by (simp add: word_less_nat_alt)
  have valid2: "unat L2 + ?dl < 2 ^ 64 \<and> ?N2 \<le> 255"
  proof (rule ccontr)
    assume "\<not> ?thesis"
    then have "2 ^ 64 \<le> unat L2 + ?dl \<or> 255 < ?N2" by auto
    from HKDF_expand_rejected[OF dl this, of previous0 out_key0 prk info] ok show False by simp
  qed
  have n12: "?N1 \<le> ?N2" using l12 by (simp add: blocks_needed_mono)
  have valid1: "unat L1 + ?dl < 2 ^ 64" "?N1 \<le> 255" using valid2 l12 n12 by auto
  have ol1: "unat L1 \<le> length out_key0" using ol l12 by simp
  note e2 = HKDF_expand_valid[OF dl conjunct1[OF valid2] conjunct2[OF valid2] ol pl, of prk info]
  note e1 = HKDF_expand_valid[OF dl valid1 ol1 pl, of prk info]
  have r0: "fst ?r0" using ok unfolding e2 by (simp add: Let_def split: if_splits)
  have c2: "fst ?c2" using ok r0 unfolding e2 by (simp add: Let_def split: if_splits)
  obtain k where k: "?N2 = ?N1 + k" using n12 le_Suc_ex by blast
  have split: "?c2 = (let r1 = ?c1
      in if \<not> fst r1 then r1
         else
           let r2 = hash_chain ops info ?dl (0 + ?N1) k (fst (snd r1)) (fst (snd (snd r1)))
           in (fst r2, fst (snd r2), fst (snd (snd r2)),
               snd (snd (snd r1)) @ snd (snd (snd r2))))"
    unfolding k by (rule hash_chain_add)
  have c1: "fst ?c1" using c2 unfolding split by (simp add: Let_def split: if_splits)
  obtain rest where bs: "snd (snd (snd ?c2)) = snd (snd (snd ?c1)) @ rest"
    using c1 unfolding split by (simp add: Let_def)
  have len1: "length (concat (snd (snd (snd ?c1)))) = ?N1 * ?dl"
    by (rule hash_chain_concat_length[OF pl c1])
  have len2: "length (concat (snd (snd (snd ?c2)))) = ?N2 * ?dl"
    by (rule hash_chain_concat_length[OF pl c2])
  have cov1: "unat L1 \<le> ?N1 * ?dl" by (rule blocks_needed_cover[OF dlp])
  have cov2: "unat L2 \<le> ?N2 * ?dl" by (rule blocks_needed_cover[OF dlp])
  have ret1: "r_ret (HKDF_expand ops previous0 out_key0 L1 digest prk info) = 1"
    unfolding e1 using r0 c1 by (simp add: Let_def)
  have o1: "take (unat L1) (r_out_key (HKDF_expand ops previous0 out_key0 L1 digest prk info))
      = take (unat L1) (concat (snd (snd (snd ?c1))))"
    unfolding e1 using r0 cov1 len1 by (simp add: Let_def take_store_bytes_0)
  have o2: "take (unat L1) (r_out_key (HKDF_expand ops previous0 out_key0 L2 digest prk info))
      = take (unat L1) (take (unat L2) (concat (snd (snd (snd ?c2)))))"
    unfolding e2 using r0 cov2 len2 l12 by (simp add: Let_def take_store_bytes_0)
  have "take (unat L1) (take (unat L2) (concat (snd (snd (snd ?c2)))))
      = take (unat L1) (concat (snd (snd (snd ?c1))))"
    unfolding bs using l12 cov1 len1 by (simp add: min_def)
  then show ?thesis using ret1 o1 o2 by simp
qed

theorem HKDF_expand_prefix_consistent_witness:
  "r_ret (HKDF_expand toy_ops [0, 0] [0, 0, 0] 1 () [7] [9]) = 1 \<and>
   take (unat (1 :: size_t)) (r_out_key (HKDF_expand toy_ops [0, 0] [0, 0, 0] 1 () [7] [9]))
     = take (unat (1 :: size_t)) (r_out_key (HKDF_expand toy_ops [0, 0] [0, 0, 0] 3 () [7] [9])) \<and>
   r_out_key (HKDF_expand toy_ops [0, 0] [0, 0, 0] 3 () [7] [9]) = [11, 3, 26]"
proof -
  have ok: "r_ret (HKDF_expand toy_ops [0, 0] [0, 0, 0] 3 () [7] [9]) = 1"
    by (simp add: toy_expand_3)
  have "r_ret (HKDF_expand toy_ops [0, 0] [0, 0, 0] 1 () [7] [9]) = 1 \<and>
   take (unat (1 :: size_t)) (r_out_key (HKDF_expand toy_ops [0, 0] [0, 0, 0] 1 () [7] [9]))
     = take (unat (1 :: size_t)) (r_out_key (HKDF_expand toy_ops [0, 0] [0, 0, 0] 3 () [7] [9]))"
    by (rule HKDF_expand_prefix_consistent[OF _ _ _ _ ok]) (simp_all add: toy_size)
  then show ?thesis by (simp add: toy_expand_3)
qed


subsection \<open>HKDF-Extract and the composite\<close>

lemma put_errors_append: "put_errors (a @ b) = put_errors a @ put_errors b"
  by (induction a rule: put_errors.induct) simp_all

lemma HKDF_extract_ret:
  "HKDF_extract NDEBUG ops out_key0 out_len0 digest secret salt = Some x \<Longrightarrow>
   (r_ret x = 0 \<and> put_errors (r_events x) = [ERR_R_HMAC_LIB] \<and> HMAC ops digest salt secret = None) \<or>
   (r_ret x = 1 \<and> put_errors (r_events x) = [] \<and> HMAC ops digest salt secret \<noteq> None)"
  by (auto simp: HKDF_extract_def Let_def split: option.splits if_splits)

lemma unat_len32: "unat (ucast (of_nat n :: 32 word) :: size_t) \<le> n"
proof -
  have "unat (ucast (of_nat n :: 32 word) :: size_t) \<le> unat (of_nat n :: 32 word)"
    by (simp add: unsigned_ucast_eq take_bit_eq_mod)
  also have "\<dots> = n mod 2 ^ 32" by (simp only: unat_of_nat) simp
  also have "\<dots> \<le> n" by simp
  finally show ?thesis .
qed

text \<open>
  What the two builds do with a \<open>len\<close> that is not the digest size, here three
  bytes reported where the size is two: with the \<open>assert\<close> compiled in the process
  aborts, with \<open>NDEBUG\<close> the function returns 1 and \<open>*out_len\<close> is 3. The code itself
  enforces nothing in that build; the length of the PRK is the length of what
  \<open>HMAC\<close> wrote.
\<close>

lemma HKDF_extract_reports_len:
  "HKDF_extract False long_hmac_ops [0, 0, 0] 0 () [1, 2] [3] = None \<and>
   HKDF_extract True long_hmac_ops [0, 0, 0] 0 () [1, 2] [3] =
     Some \<lparr>r_ret = 1, r_out_key = [1, 2, 3],
           r_events = [FIPS_service_indicator_lock_state, FIPS_service_indicator_unlock_state],
           r_out_len = 3\<rparr>"
  by (simp add: HKDF_extract_def long_hmac_ops_def toy_ops_def store_bytes_def)

lemma unat_len32_eq:
  "n < 2 ^ 32 \<Longrightarrow> unat (ucast (of_nat n :: 32 word) :: size_t) = n"
proof -
  assume n: "n < 2 ^ 32"
  have a: "unat (of_nat n :: 32 word) = n"
    using n by (simp only: unat_of_nat) simp
  have "n mod 2 ^ 64 = n" using n by simp
  then show ?thesis using a by (simp add: unsigned_ucast_eq take_bit_eq_mod)
qed

text \<open>
  C8. Over a one-shot \<open>HMAC\<close> that writes digest-length output (its contract) for a
  digest whose size fits the \<open>unsigned\<close> \<open>len\<close>, in either build (\<open>assert\<close> compiled
  in or out), for every secret and salt: \<open>HKDF_extract\<close> returns (the \<open>assert\<close> never
  fails), and whenever it returns 1 the length it stores in \<open>*out_len\<close> is the
  digest's output size and the PRK, the first \<open>*out_len\<close> bytes of \<open>out_key\<close>, is
  what \<open>HMAC\<close> wrote and has exactly that many bytes.
\<close>

theorem HKDF_extract_prk_length:
  assumes contract: "HMAC_writes_digest_length ops digest"
    and fits: "unat (EVP_MD_size ops digest) < 2 ^ 32"
  shows "(\<exists>x. HKDF_extract NDEBUG ops out_key0 out_len0 digest secret salt = Some x) \<and>
         (\<forall>x. HKDF_extract NDEBUG ops out_key0 out_len0 digest secret salt = Some x \<and> r_ret x = 1
            \<longrightarrow> r_out_len x = EVP_MD_size ops digest \<and>
                HMAC ops digest salt secret = Some (take (unat (r_out_len x)) (r_out_key x)) \<and>
                length (take (unat (r_out_len x)) (r_out_key x)) = unat (EVP_MD_size ops digest))"
proof (cases "HMAC ops digest salt secret")
  case None
  then show ?thesis by (simp add: HKDF_extract_def)
next
  case (Some md)
  have len: "length md = unat (EVP_MD_size ops digest)"
    using contract Some unfolding HMAC_writes_digest_length_def by blast
  have "unat (ucast (of_nat (length md) :: 32 word) :: size_t) = unat (EVP_MD_size ops digest)"
    using unat_len32_eq[of "length md"] fits len by simp
  then have w: "(ucast (of_nat (length md) :: 32 word) :: size_t) = EVP_MD_size ops digest"
    by (simp add: word_unat_eq_iff)
  have x: "HKDF_extract NDEBUG ops out_key0 out_len0 digest secret salt =
      Some \<lparr>r_ret = 1, r_out_key = store_bytes out_key0 0 md,
            r_events = [FIPS_service_indicator_lock_state, FIPS_service_indicator_unlock_state],
            r_out_len = EVP_MD_size ops digest\<rparr>"
    using Some w by (simp add: HKDF_extract_def Let_def)
  have prk: "take (unat (EVP_MD_size ops digest)) (store_bytes out_key0 0 md) = md"
    unfolding store_bytes_0 using len by simp
  have l2: "length (take (unat (EVP_MD_size ops digest)) (store_bytes out_key0 0 md))
      = unat (EVP_MD_size ops digest)"
    unfolding prk by (rule len)
  show ?thesis unfolding x using Some prk l2 by (auto simp del: length_take)
qed

theorem HKDF_extract_prk_length_witness:
  "(\<exists>x. HKDF_extract True toy_ops [0, 0] 0 () [1, 2] [3] = Some x \<and> r_ret x = 1 \<and>
        r_out_len x = 2 \<and> take (unat (r_out_len x)) (r_out_key x) = [4, 3]) \<and>
   (\<exists>x. HKDF_extract False toy_ops [0, 0] 0 () [1, 2] [3] = Some x \<and> r_ret x = 1 \<and>
        r_out_len x = 2 \<and> take (unat (r_out_len x)) (r_out_key x) = [4, 3])"
proof -
  have c: "HMAC_writes_digest_length toy_ops ()"
    by (simp add: HMAC_writes_digest_length_def toy_ops_def toy_hash_def)
  have f: "unat (EVP_MD_size toy_ops ()) < 2 ^ 32" by (simp add: toy_size)
  have h: "HMAC toy_ops () [3] [1, 2] = Some [4, 3]" by (simp add: toy_ops_def toy_hash_def)
  have "\<exists>x. HKDF_extract b toy_ops [0, 0] 0 () [1, 2] [3] = Some x \<and> r_ret x = 1 \<and>
        r_out_len x = 2 \<and> take (unat (r_out_len x)) (r_out_key x) = [4, 3]" for b
  proof -
    from HKDF_extract_prk_length[OF c f, of b "[0, 0]" 0 "[1, 2]" "[3]"]
    obtain x where x: "HKDF_extract b toy_ops [0, 0] 0 () [1, 2] [3] = Some x"
      and p: "r_ret x = 1 \<longrightarrow> r_out_len x = EVP_MD_size toy_ops () \<and>
                HMAC toy_ops () [3] [1, 2] = Some (take (unat (r_out_len x)) (r_out_key x))"
      by auto
    have r: "r_ret x = 1" using x[unfolded toy_extract] by auto
    show ?thesis using x r p h by (simp add: toy_size)
  qed
  then show ?thesis by blast
qed

text \<open>
  C5. What is observed of \<open>HKDF\<close> (the returned \<open>int\<close>, the output buffer, the errors
  put) is what is observed of Extract followed, if it returned 1, by Expand on its
  PRK. \<open>HKDF\<close> returns 1 exactly when both phases return 1. When the keyed hash of
  Extract fails, \<open>HKDF\<close> returns 0 with Extract's error alone and the output buffer
  untouched, and no call of Expand is made.
\<close>

theorem HKDF_is_Extract_then_Expand:
  "map_option (\<lambda>h. (r_ret h, r_out_key h, put_errors (r_events h)))
       (HKDF NDEBUG ops prk0 prk_len0 previous0 out_key0 out_len digest secret salt info)
     = Extract_then_Expand NDEBUG ops prk0 prk_len0 previous0 out_key0 out_len digest secret salt info \<and>
   ((\<exists>h. HKDF NDEBUG ops prk0 prk_len0 previous0 out_key0 out_len digest secret salt info = Some h \<and>
         r_ret h = 1)
     \<longleftrightarrow> (\<exists>x. HKDF_extract NDEBUG ops prk0 prk_len0 digest secret salt = Some x \<and> r_ret x = 1 \<and>
              r_ret (HKDF_expand ops previous0 out_key0 out_len digest
                       (take (unat (r_out_len x)) (r_out_key x)) info) = 1)) \<and>
   (HMAC ops digest salt secret = None \<longrightarrow>
      HKDF NDEBUG ops prk0 prk_len0 previous0 out_key0 out_len digest secret salt info =
        Some \<lparr>r_ret = 0, r_out_key = out_key0,
              r_events = [FIPS_service_indicator_lock_state,
                          FIPS_service_indicator_lock_state,
                          OPENSSL_PUT_ERROR ERR_R_HMAC_LIB,
                          FIPS_service_indicator_unlock_state,
                          FIPS_service_indicator_unlock_state,
                          HKDF_verify_service_indicator digest salt (length info)],
              r_prk = prk0, r_prk_len = prk_len0\<rparr>)"
proof -
  let ?H = "HKDF NDEBUG ops prk0 prk_len0 previous0 out_key0 out_len digest secret salt info"
  let ?X = "HKDF_extract NDEBUG ops prk0 prk_len0 digest secret salt"
  have a: "map_option (\<lambda>h. (r_ret h, r_out_key h, put_errors (r_events h))) ?H
     = Extract_then_Expand NDEBUG ops prk0 prk_len0 previous0 out_key0 out_len digest secret salt info"
  proof (cases ?X)
    case None
    then show ?thesis by (simp add: HKDF_def Extract_then_Expand_def)
  next
    case (Some x)
    let ?e = "HKDF_expand ops previous0 out_key0 out_len digest
                (take (unat (r_out_len x)) (r_out_key x)) info"
    have e01: "r_ret ?e = 0 \<or> r_ret ?e = 1" using HKDF_expand_ret_01[of ops previous0 out_key0 out_len digest] by simp
    from HKDF_extract_ret[OF Some] show ?thesis
    proof
      assume "r_ret x = 0 \<and> put_errors (r_events x) = [ERR_R_HMAC_LIB] \<and> HMAC ops digest salt secret = None"
      then show ?thesis using Some
        by (simp add: HKDF_def Extract_then_Expand_def put_errors_append)
    next
      assume "r_ret x = 1 \<and> put_errors (r_events x) = [] \<and> HMAC ops digest salt secret \<noteq> None"
      then show ?thesis using Some e01
        by (auto simp: HKDF_def Extract_then_Expand_def put_errors_append Let_def)
    qed
  qed
  have b: "(\<exists>h. ?H = Some h \<and> r_ret h = 1)
     \<longleftrightarrow> (\<exists>x. ?X = Some x \<and> r_ret x = 1 \<and>
              r_ret (HKDF_expand ops previous0 out_key0 out_len digest
                       (take (unat (r_out_len x)) (r_out_key x)) info) = 1)"
  proof (cases ?X)
    case None
    then show ?thesis by (simp add: HKDF_def)
  next
    case (Some x)
    let ?e = "HKDF_expand ops previous0 out_key0 out_len digest
                (take (unat (r_out_len x)) (r_out_key x)) info"
    have e01: "r_ret ?e = 0 \<or> r_ret ?e = 1" using HKDF_expand_ret_01[of ops previous0 out_key0 out_len digest] by simp
    from HKDF_extract_ret[OF Some] e01 show ?thesis using Some
      by (auto simp: HKDF_def Let_def)
  qed
  have c: "HMAC ops digest salt secret = None \<longrightarrow> ?H =
        Some \<lparr>r_ret = 0, r_out_key = out_key0,
              r_events = [FIPS_service_indicator_lock_state,
                          FIPS_service_indicator_lock_state,
                          OPENSSL_PUT_ERROR ERR_R_HMAC_LIB,
                          FIPS_service_indicator_unlock_state,
                          FIPS_service_indicator_unlock_state,
                          HKDF_verify_service_indicator digest salt (length info)],
              r_prk = prk0, r_prk_len = prk_len0\<rparr>"
    by (simp add: HKDF_def HKDF_extract_def)
  show ?thesis using a b c by blast
qed

theorem HKDF_is_Extract_then_Expand_witness:
  "Extract_then_Expand False toy_ops [0, 0] 0 [0, 0] [0, 0, 0] 3 () [1, 2] [3] [9] = Some (1, [12, 3, 28], []) \<and>
   Extract_then_Expand False broken_ops [0, 0] 0 [0, 0] [0, 0, 0] 3 () [1, 2] [3] [9]
     = Some (0, [0, 0, 0], [ERR_R_HMAC_LIB]) \<and>
   Extract_then_Expand False toy_ops [0, 0] 0 [0, 0] [0, 0, 0] 511 () [1, 2] [3] [9]
     = Some (0, [0, 0, 0], [HKDF_R_OUTPUT_TOO_LARGE]) \<and>
   (\<exists>x. HKDF_extract False toy_ops [0, 0] 0 () [1, 2] [3] = Some x \<and> r_ret x = 1 \<and>
              r_ret (HKDF_expand toy_ops [0, 0] [0, 0, 0] 3 ()
                       (take (unat (r_out_len x)) (r_out_key x)) [9]) = 1)"
proof -
  note t = HKDF_is_Extract_then_Expand[of False toy_ops "[0, 0]" 0 "[0, 0]" "[0, 0, 0]" 3 "()" "[1, 2]" "[3]" "[9]"]
  note t511 = HKDF_is_Extract_then_Expand[of False toy_ops "[0, 0]" 0 "[0, 0]" "[0, 0, 0]" 511 "()" "[1, 2]" "[3]" "[9]"]
  note u = HKDF_is_Extract_then_Expand[of False broken_ops "[0, 0]" 0 "[0, 0]" "[0, 0, 0]" 3 "()" "[1, 2]" "[3]" "[9]"]
  have n: "HMAC broken_ops () [3] [1, 2] = None" by (simp add: broken_ops_def)
  have a: "Extract_then_Expand False toy_ops [0, 0] 0 [0, 0] [0, 0, 0] 3 () [1, 2] [3] [9] = Some (1, [12, 3, 28], [])"
    using conjunct1[OF t] by (simp add: toy_hkdf)
  have b: "Extract_then_Expand False broken_ops [0, 0] 0 [0, 0] [0, 0, 0] 3 () [1, 2] [3] [9]
     = Some (0, [0, 0, 0], [ERR_R_HMAC_LIB])"
  proof -
    from u n have hk: "HKDF False broken_ops [0, 0] 0 [0, 0] [0, 0, 0] 3 () [1, 2] [3] [9] =
        Some \<lparr>r_ret = 0, r_out_key = [0, 0, 0],
              r_events = [FIPS_service_indicator_lock_state,
                          FIPS_service_indicator_lock_state,
                          OPENSSL_PUT_ERROR ERR_R_HMAC_LIB,
                          FIPS_service_indicator_unlock_state,
                          FIPS_service_indicator_unlock_state,
                          HKDF_verify_service_indicator () [3] (length [9::u8])],
              r_prk = [0, 0], r_prk_len = 0\<rparr>"
      by blast
    show ?thesis using conjunct1[OF u] by (simp add: hk)
  qed
  have h511: "HKDF False toy_ops [0, 0] 0 [0, 0] [0, 0, 0] 511 () [1, 2] [3] [9] =
     Some \<lparr>r_ret = 0, r_out_key = [0, 0, 0],
           r_events = [FIPS_service_indicator_lock_state,
                       FIPS_service_indicator_lock_state, FIPS_service_indicator_unlock_state,
                       OPENSSL_PUT_ERROR HKDF_R_OUTPUT_TOO_LARGE,
                       FIPS_service_indicator_unlock_state,
                       HKDF_verify_service_indicator () [3] 1],
           r_prk = [4, 3], r_prk_len = 2\<rparr>"
    by (simp add: toy_eval)
  have c: "Extract_then_Expand False toy_ops [0, 0] 0 [0, 0] [0, 0, 0] 511 () [1, 2] [3] [9]
     = Some (0, [0, 0, 0], [HKDF_R_OUTPUT_TOO_LARGE])"
    using conjunct1[OF t511] by (simp add: h511)
  have d: "\<exists>x. HKDF_extract False toy_ops [0, 0] 0 () [1, 2] [3] = Some x \<and> r_ret x = 1 \<and>
              r_ret (HKDF_expand toy_ops [0, 0] [0, 0, 0] 3 ()
                       (take (unat (r_out_len x)) (r_out_key x)) [9]) = 1"
    using conjunct1[OF conjunct2[OF t]] by (simp add: toy_hkdf)
  show ?thesis using a b c d by blast
qed


subsection \<open>Sensitive intermediates\<close>




end
